theory Spec2Isabelle
  imports Complex_Main "HOL-Library.AList" "HOL-Library.Log_Nat"
begin

section \<open>The OpenRouter API manager: data model\<close>

text \<open>
  A shallow embedding of \<^verbatim>\<open>src/services/openrouter_api_manager.py\<close>, class
  \<^verbatim>\<open>OpenRouterAPIManager\<close>. Every method takes the manager and returns the manager as the
  method leaves it, also when it raises: a Python exception does not undo the mutations made
  before it.

  \<^item> A point in time (\<^verbatim>\<open>datetime\<close>) is an integer count of microseconds, the resolution
    of \<^verbatim>\<open>datetime\<close>; a \<^verbatim>\<open>timedelta\<close> is a count of microseconds too.
  \<^item> \<^verbatim>\<open>datetime.now()\<close> is an input: every call site gets its own reading, so nothing is
    assumed of the clock (not even that it is monotone).
  \<^item> The two dictionaries are association lists in insertion order, read with
    \<^const>\<open>map_of\<close>, written with \<^const>\<open>AList.update\<close> (in place for a key that is
    present, appended otherwise) and \<^const>\<open>AList.delete\<close>.
  \<^item> Exceptions are values of \<open>exc\<close>; logging is left out.
\<close>

type_synonym time = int

definition timedelta_seconds :: "int \<Rightarrow> int" where
  "timedelta_seconds n = n * 1000000"

definition timedelta_minutes :: "int \<Rightarrow> int" where
  "timedelta_minutes n = n * 60000000"

datatype exc =
    IndexError
  | KeyError string
  | ValueError
  | TypeError
  | ZeroDivisionError
  | OverflowError
  | UnboundLocalError
  | TransportError string

text \<open>
  \<^verbatim>\<open>str(e)\<close>. For the exceptions the interpreter raises these are CPython's messages. A
  \<^verbatim>\<open>KeyError\<close> prints the \<^verbatim>\<open>repr\<close> of its key, written here for a key without quotes,
  backslashes or control characters. A transport error carries the text the transport gave it.
\<close>

fun exc_str :: "exc \<Rightarrow> string" where
  "exc_str IndexError = ''list index out of range''"
| "exc_str (KeyError k) = [CHR 0x27] @ k @ [CHR 0x27]"
| "exc_str ValueError = ''min() arg is an empty sequence''"
| "exc_str TypeError = ''exceptions must derive from BaseException''"
| "exc_str ZeroDivisionError = ''integer division or modulo by zero''"
| "exc_str OverflowError = ''integer division result too large for a float''"
| "exc_str UnboundLocalError = ''local variable referenced before assignment''"
| "exc_str (TransportError m) = m"

text \<open>The per-key dictionary of \<^verbatim>\<open>key_usage_stats\<close>.\<close>

record key_stats =
  requests :: int
  errors :: int
  last_used :: "time option"
  credits_exhausted :: bool
  rate_limited :: bool

record manager =
  base_url :: string
  api_keys :: "string list"
  current_key_index :: nat
  key_usage_stats :: "(string \<times> key_stats) list"
  key_cooldowns :: "(string \<times> time) list"
  max_retries :: nat
  retry_delay :: nat
  model_fallback_chain :: "string list"

section \<open>Construction\<close>

text \<open>
  \<^verbatim>\<open>_load_api_keys\<close>: the main variable and then the variables numbered 1 to 9, each kept
  when it is set and not empty; \<^verbatim>\<open>ValueError\<close> when none is. The environment is a map from
  variable names to values.
\<close>

definition env_names :: "string list" where
  "env_names =
     ''OPENROUTER_API_KEY'' #
     map (\<lambda>d. ''OPENROUTER_API_KEY_'' @ [d]) ''123456789''"

definition load_api_keys :: "(string \<rightharpoonup> string) \<Rightarrow> exc + string list" where
  "load_api_keys getenv =
     (let keys = concat (map (\<lambda>n. case getenv n of
                                      None \<Rightarrow> []
                                    | Some v \<Rightarrow> if v = [] then [] else [v]) env_names)
      in if keys = [] then Inl ValueError else Inr keys)"

definition fresh_stats :: key_stats where
  "fresh_stats = \<lparr>requests = 0, errors = 0, last_used = None,
                   credits_exhausted = False, rate_limited = False\<rparr>"

definition default_chain :: "string list" where
  "default_chain =
     [''qwen/qwen-2.5-72b-instruct'',
      ''qwen/qwen-2.5-32b-instruct'',
      ''meta-llama/llama-3.1-8b-instruct:free'',
      ''mistralai/mixtral-8x7b-instruct'']"

definition init_manager :: "(string \<rightharpoonup> string) \<Rightarrow> exc + manager" where
  "init_manager getenv =
     (case load_api_keys getenv of
        Inl e \<Rightarrow> Inl e
      | Inr keys \<Rightarrow>
          Inr \<lparr>base_url = ''https://openrouter.ai/api/v1'',
               api_keys = keys,
               current_key_index = 0,
               key_usage_stats = foldl (\<lambda>d k. AList.update k fresh_stats d) [] keys,
               key_cooldowns = [],
               max_retries = 3,
               retry_delay = 2,
               model_fallback_chain = default_chain\<rparr>)"

section \<open>Key selection\<close>

text \<open>
  \<^verbatim>\<open>_rotate_to_next_key\<close>. Python's \<^verbatim>\<open>%\<close> raises on an empty pool, where HOL's \<open>mod\<close>
  would return its argument.
\<close>

definition rotate_to_next_key :: "manager \<Rightarrow> exc + manager" where
  "rotate_to_next_key s =
     (if length (api_keys s) = 0 then Inl ZeroDivisionError
      else Inr (s\<lparr>current_key_index := (current_key_index s + 1) mod length (api_keys s)\<rparr>))"

text \<open>
  \<^verbatim>\<open>min(self.api_keys, key=lambda k: self.key_usage_stats[k]['errors'])\<close>: the key function
  is evaluated on every element in order (a missing entry raises \<^verbatim>\<open>KeyError\<close>), and the
  first element with the smallest value wins: a later element replaces the best so far only
  when its value is strictly smaller.
\<close>

fun error_counts :: "manager \<Rightarrow> string list \<Rightarrow> exc + (string \<times> int) list" where
  "error_counts s [] = Inr []"
| "error_counts s (k # ks) =
     (case map_of (key_usage_stats s) k of
        None \<Rightarrow> Inl (KeyError k)
      | Some st \<Rightarrow>
          (case error_counts s ks of
             Inl e \<Rightarrow> Inl e
           | Inr r \<Rightarrow> Inr ((k, errors st) # r)))"

primrec min_from :: "(string \<times> int) \<Rightarrow> (string \<times> int) list \<Rightarrow> (string \<times> int)" where
  "min_from b [] = b"
| "min_from b (x # xs) = min_from (if snd x < snd b then x else b) xs"

definition least_errors_key :: "manager \<Rightarrow> exc + string" where
  "least_errors_key s =
     (case api_keys s of
        [] \<Rightarrow> Inl ValueError
      | _ # _ \<Rightarrow>
          (case error_counts s (api_keys s) of
             Inl e \<Rightarrow> Inl e
           | Inr [] \<Rightarrow> Inl ValueError
           | Inr (p # ps) \<Rightarrow> Inr (fst (min_from p ps))))"

text \<open>
  The \<^verbatim>\<open>while\<close> loop of \<^verbatim>\<open>_get_next_available_key\<close>, from the iteration numbered
  \<open>attempts\<close>; \<open>clock i\<close> is what \<^verbatim>\<open>datetime.now()\<close> reads in iteration \<open>i\<close>. A
  \<^verbatim>\<open>datetime\<close> is always truthy, so \<^verbatim>\<open>if cooldown_until\<close> asks whether the key has an
  entry. The loop ends with \<open>Inr (Some key)\<close> when it returns a key, with \<open>Inr None\<close>
  when it runs out, with \<open>Inl e\<close> when it raises.
\<close>

function scan_keys :: "manager \<Rightarrow> (nat \<Rightarrow> time) \<Rightarrow> nat \<Rightarrow> manager \<times> (exc + string option)" where
  "scan_keys s clock attempts =
     (if attempts < length (api_keys s) then
        (if current_key_index s < length (api_keys s) then
           (let key = api_keys s ! current_key_index s in
            case map_of (key_usage_stats s) key of
              None \<Rightarrow> (s, Inl (KeyError key))
            | Some stats \<Rightarrow>
                (case map_of (key_cooldowns s) key of
                   Some cooldown_until \<Rightarrow>
                     (if clock attempts < cooldown_until then
                        (case rotate_to_next_key s of
                           Inl e \<Rightarrow> (s, Inl e)
                         | Inr s' \<Rightarrow> scan_keys s' clock (attempts + 1))
                      else
                        (let s1 = s\<lparr>key_cooldowns := AList.delete key (key_cooldowns s)\<rparr> in
                         if \<not> credits_exhausted stats \<and> \<not> rate_limited stats
                         then (s1, Inr (Some key))
                         else (case rotate_to_next_key s1 of
                                 Inl e \<Rightarrow> (s1, Inl e)
                               | Inr s' \<Rightarrow> scan_keys s' clock (attempts + 1))))
                 | None \<Rightarrow>
                     (if \<not> credits_exhausted stats \<and> \<not> rate_limited stats
                      then (s, Inr (Some key))
                      else (case rotate_to_next_key s of
                              Inl e \<Rightarrow> (s, Inl e)
                            | Inr s' \<Rightarrow> scan_keys s' clock (attempts + 1)))))
         else (s, Inl IndexError))
      else (s, Inr None))"
  by pat_completeness auto
termination
  by (relation "measure (\<lambda>(s, clock, attempts). length (api_keys s) - attempts)")
     (auto simp: rotate_to_next_key_def split: if_splits)

definition get_next_available_key :: "manager \<Rightarrow> (nat \<Rightarrow> time) \<Rightarrow> manager \<times> (exc + string)" where
  "get_next_available_key s clock =
     (case scan_keys s clock 0 of
        (s', Inl e) \<Rightarrow> (s', Inl e)
      | (s', Inr (Some key)) \<Rightarrow> (s', Inr key)
      | (s', Inr None) \<Rightarrow> (s', least_errors_key s'))"

section \<open>Recording a failure\<close>

text \<open>
  \<^verbatim>\<open>str.lower()\<close> on the bytes of the text: an ASCII capital becomes its small letter and
  every other byte stays. The five patterns searched for below are ASCII, and no character
  outside ASCII lowers to a text that completes one of them, so the classification is the
  one Python computes.
\<close>

definition lower_char :: "char \<Rightarrow> char" where
  "lower_char c =
     (case map_of (zip ''ABCDEFGHIJKLMNOPQRSTUVWXYZ'' ''abcdefghijklmnopqrstuvwxyz'') c of
        None \<Rightarrow> c
      | Some d \<Rightarrow> d)"

definition lower :: "string \<Rightarrow> string" where
  "lower s = map lower_char s"

fun has_prefix :: "string \<Rightarrow> string \<Rightarrow> bool" where
  "has_prefix [] s = True"
| "has_prefix (p # ps) [] = False"
| "has_prefix (p # ps) (c # cs) = (p = c \<and> has_prefix ps cs)"

text \<open>\<^verbatim>\<open>sub in s\<close> on strings.\<close>

fun py_in :: "string \<Rightarrow> string \<Rightarrow> bool" where
  "py_in sub [] = (sub = [])"
| "py_in sub (c # cs) = (has_prefix sub (c # cs) \<or> py_in sub cs)"

definition credit_signal :: "string \<Rightarrow> bool" where
  "credit_signal error_str \<longleftrightarrow>
     py_in ''402'' error_str \<or> py_in ''payment required'' error_str \<or> py_in ''credit'' error_str"

definition rate_limit_signal :: "string \<Rightarrow> bool" where
  "rate_limit_signal error_str \<longleftrightarrow>
     py_in ''429'' error_str \<or> py_in ''rate limit'' error_str"

text \<open>
  \<^verbatim>\<open>_handle_api_error\<close>; \<open>now\<close> is the one reading of the clock that the branch taken
  makes. The lookup of the key's statistics raises before anything is written.
\<close>

definition handle_api_error :: "manager \<Rightarrow> string \<Rightarrow> exc \<Rightarrow> time \<Rightarrow> manager \<times> exc option" where
  "handle_api_error s key error now =
     (case map_of (key_usage_stats s) key of
        None \<Rightarrow> (s, Some (KeyError key))
      | Some stats0 \<Rightarrow>
          (let stats = stats0\<lparr>errors := errors stats0 + 1\<rparr>;
               error_str = lower (exc_str error)
           in if credit_signal error_str then
                (s\<lparr>key_usage_stats :=
                      AList.update key (stats\<lparr>credits_exhausted := True\<rparr>) (key_usage_stats s),
                    key_cooldowns :=
                      AList.update key (now + timedelta_minutes 30) (key_cooldowns s)\<rparr>, None)
              else if rate_limit_signal error_str then
                (s\<lparr>key_usage_stats :=
                      AList.update key (stats\<lparr>rate_limited := True\<rparr>) (key_usage_stats s),
                    key_cooldowns :=
                      AList.update key (now + timedelta_seconds 60) (key_cooldowns s)\<rparr>, None)
              else
                (s\<lparr>key_usage_stats := AList.update key stats (key_usage_stats s),
                    key_cooldowns :=
                      AList.update key (now + timedelta_seconds 30) (key_cooldowns s)\<rparr>, None)))"

section \<open>Degrading a request\<close>

text \<open>
  The keyword arguments of a request: the two entries the manager reads, each absent
  (\<open>None\<close>, what \<^verbatim>\<open>dict.get\<close> returns) or present, and the rest, which it passes on.
\<close>

record 'p request =
  model :: "string option"
  max_tokens :: "int option"
  payload :: 'p

text \<open>\<^verbatim>\<open>list.index\<close>, for an element of the list: the first position that holds it.\<close>

fun index_of :: "string list \<Rightarrow> string \<Rightarrow> nat" where
  "index_of [] m = 0"
| "index_of (x # xs) m = (if x = m then 0 else Suc (index_of xs m))"

text \<open>
  \<^verbatim>\<open>_maybe_adjust_request\<close>. \<^verbatim>\<open>if max_tokens\<close> holds for a budget that is present and
  not zero.
\<close>

definition adjust_max_tokens :: "int option \<Rightarrow> int \<Rightarrow> int option" where
  "adjust_max_tokens mt attempt =
     (case mt of
        None \<Rightarrow> None
      | Some n \<Rightarrow>
          (if n \<noteq> 0 then
             (if attempt = 1 then Some (min n 2048)
              else if attempt = 2 then Some (min n 1024)
              else if attempt \<ge> 3 then Some (min n 512)
              else Some n)
           else Some n))"

definition adjust_model :: "string list \<Rightarrow> string option \<Rightarrow> int \<Rightarrow> string option" where
  "adjust_model chain mo attempt =
     (if (case mo of None \<Rightarrow> False | Some m \<Rightarrow> m \<in> set chain) then
        (let idx = index_of chain (the mo) in
         if attempt \<le> 2 \<and> idx + 1 < length chain then Some (chain ! (idx + 1)) else mo)
      else
        (if attempt \<ge> 1 \<and> chain \<noteq> [] then Some (chain ! 0) else mo))"

definition maybe_adjust_request :: "manager \<Rightarrow> 'p request \<Rightarrow> int \<Rightarrow> 'p request" where
  "maybe_adjust_request s kwargs attempt =
     kwargs\<lparr>max_tokens := adjust_max_tokens (max_tokens kwargs) attempt,
            model := adjust_model (model_fallback_chain s) (model kwargs) attempt\<rparr>"

section \<open>The retry loop\<close>

record client =
  client_base_url :: string
  client_api_key :: string

text \<open>
  \<^verbatim>\<open>_create_client\<close>: the constructor stores its two arguments, and raises only for an
  API key that is \<^verbatim>\<open>None\<close>, which a key of the pool never is.
\<close>

definition create_client :: "manager \<Rightarrow> string \<Rightarrow> client" where
  "create_client s api_key = \<lparr>client_base_url = base_url s, client_api_key = api_key\<rparr>"

text \<open>
  What \<^verbatim>\<open>chat_completion\<close> takes from outside the manager, per attempt \<open>n\<close>: the clock
  readings of the key selection (\<open>select_clock n\<close>), of \<^verbatim>\<open>stats['last_used'] = datetime.now()\<close>
  (\<open>use_clock n\<close>) and of the error handler (\<open>error_clock n\<close>), and what the call
  \<^verbatim>\<open>client.chat.completions.create(**adj_kwargs)\<close> does: it returns a response or raises.
\<close>

record ('p, 'r) world =
  select_clock :: "nat \<Rightarrow> nat \<Rightarrow> time"
  use_clock :: "nat \<Rightarrow> time"
  error_clock :: "nat \<Rightarrow> time"
  dispatch :: "nat \<Rightarrow> client \<Rightarrow> 'p request \<Rightarrow> exc + 'r"

text \<open>A dispatch made: the attempt, the client and the adjusted request.\<close>

type_synonym 'p call = "nat \<times> client \<times> 'p request"

definition run_call :: "('p, 'r) world \<Rightarrow> 'p call \<Rightarrow> exc + 'r" where
  "run_call w c = (case c of (attempt, cl, req) \<Rightarrow> dispatch w attempt cl req)"

text \<open>
  The body of the \<^verbatim>\<open>try\<close> of one attempt. It returns the manager, the local variable
  \<^verbatim>\<open>api_key\<close> (\<open>None\<close> while it is unbound), the dispatches made (none or one), and the
  response or the exception raised.
\<close>

definition try_attempt ::
  "('p, 'r) world \<Rightarrow> 'p request \<Rightarrow> nat \<Rightarrow> manager \<Rightarrow> string option \<Rightarrow>
     manager \<times> string option \<times> 'p call list \<times> (exc + 'r)" where
  "try_attempt w kwargs attempt s api_key0 =
     (case get_next_available_key s (select_clock w attempt) of
        (s1, Inl e) \<Rightarrow> (s1, api_key0, [], Inl e)
      | (s1, Inr api_key) \<Rightarrow>
          (let cl = create_client s1 api_key;
               adj_kwargs = maybe_adjust_request s1 kwargs (int attempt)
           in case map_of (key_usage_stats s1) api_key of
                None \<Rightarrow> (s1, Some api_key, [], Inl (KeyError api_key))
              | Some stats \<Rightarrow>
                  (let s2 = s1\<lparr>key_usage_stats :=
                                 AList.update api_key
                                   (stats\<lparr>requests := requests stats + 1,
                                          last_used := Some (use_clock w attempt)\<rparr>)
                                   (key_usage_stats s1)\<rparr>
                   in case dispatch w attempt cl adj_kwargs of
                        Inl e \<Rightarrow> (s2, Some api_key, [(attempt, cl, adj_kwargs)], Inl e)
                      | Inr response \<Rightarrow>
                          (case rotate_to_next_key s2 of
                             Inl e \<Rightarrow> (s2, Some api_key, [(attempt, cl, adj_kwargs)], Inl e)
                           | Inr s3 \<Rightarrow>
                               (s3, Some api_key, [(attempt, cl, adj_kwargs)], Inr response)))))"

text \<open>
  The \<^verbatim>\<open>for\<close> loop over \<^verbatim>\<open>range(self.max_retries)\<close>, with the locals \<^verbatim>\<open>api_key\<close> and
  \<^verbatim>\<open>last_error\<close> and the dispatches made so far. An exception raised inside the
  \<^verbatim>\<open>except\<close> block leaves the method. The sleep between attempts changes nothing but the
  clock. After the loop, \<^verbatim>\<open>raise last_error\<close> raises the last error, and
  \<^verbatim>\<open>TypeError\<close> when there is none.
\<close>

fun chat_loop ::
  "('p, 'r) world \<Rightarrow> 'p request \<Rightarrow> nat list \<Rightarrow> manager \<Rightarrow> string option \<Rightarrow> exc option \<Rightarrow>
     'p call list \<Rightarrow> manager \<times> 'p call list \<times> (exc + 'r)" where
  "chat_loop w kwargs [] s api_key last_error calls =
     (s, calls, (case last_error of None \<Rightarrow> Inl TypeError | Some e \<Rightarrow> Inl e))"
| "chat_loop w kwargs (attempt # rest) s api_key last_error calls =
     (case try_attempt w kwargs attempt s api_key of
        (s1, api_key1, made, Inr response) \<Rightarrow> (s1, calls @ made, Inr response)
      | (s1, api_key1, made, Inl e) \<Rightarrow>
          (case api_key1 of
             None \<Rightarrow> (s1, calls @ made, Inl UnboundLocalError)
           | Some k \<Rightarrow>
               (case handle_api_error s1 k e (error_clock w attempt) of
                  (s2, Some e') \<Rightarrow> (s2, calls @ made, Inl e')
                | (s2, None) \<Rightarrow> chat_loop w kwargs rest s2 api_key1 (Some e) (calls @ made))))"

definition chat_completion ::
  "('p, 'r) world \<Rightarrow> 'p request \<Rightarrow> manager \<Rightarrow> manager \<times> 'p call list \<times> (exc + 'r)" where
  "chat_completion w kwargs s = chat_loop w kwargs [0 ..< max_retries s] s None None []"

section \<open>Status and reset\<close>

text \<open>
  One entry of \<^verbatim>\<open>keys_status\<close>. The two times are kept as times, not as ISO strings;
  \<open>ks_cooldown_until\<close> is \<open>None\<close> where the dictionary has no such entry.
\<close>

record key_status =
  ks_index :: nat
  ks_key_preview :: string
  ks_requests :: int
  ks_errors :: int
  ks_last_used :: "time option"
  ks_credits_exhausted :: bool
  ks_rate_limited :: bool
  ks_in_cooldown :: bool
  ks_available :: bool
  ks_cooldown_until :: "time option"

subsection \<open>Python's floats\<close>

text \<open>
  A Python float is an IEEE 754 binary64 number. A finite one is \<open>m * 2 ^ e\<close> for integers
  \<open>m\<close> and \<open>e\<close> with \<open>\<bar>m\<bar> < 2 ^ 53\<close> and \<open>- 1074 \<le> e \<le> 971\<close>, and it is modelled by
  that pair or by its value, a rational; the sign of a zero is not kept, and no operation of
  the manager yields a NaN. Results are rounded to the nearest float, a tie to the one with
  the even mantissa.
\<close>

datatype pyfloat = Finite rat | PosInf | NegInf

text \<open>The integer nearest to \<open>n / d\<close> for \<open>d > 0\<close>, a tie going to the even one.\<close>

definition round_half_even :: "int \<Rightarrow> int \<Rightarrow> int" where
  "round_half_even n d =
     (let q = n div d; r = n mod d
      in if 2 * r < d then q
         else if 2 * r > d then q + 1
         else if even q then q else q + 1)"

text \<open>
  \<open>\<lfloor>log\<^sub>2 (n / d)\<rfloor>\<close> for positive \<open>n\<close> and \<open>d\<close>, from the bit lengths
  (\<^verbatim>\<open>int.bit_length\<close>, here \<^const>\<open>bitlen\<close>) and one comparison of integers.
\<close>

definition floor_log2 :: "int \<Rightarrow> int \<Rightarrow> int" where
  "floor_log2 n d =
     (let k = bitlen n - bitlen d
      in if (if k \<ge> 0 then d * 2 ^ nat k \<le> n else d \<le> n * 2 ^ nat (- k)) then k else k - 1)"

text \<open>
  The float nearest to \<open>(n / d) * 2 ^ s\<close>, for \<open>n \<ge> 0\<close> and \<open>d > 0\<close>, as mantissa and
  exponent: the exponent puts the mantissa in \<open>[2 ^ 52, 2 ^ 53]\<close>, and is \<open>- 1074\<close> for a
  subnormal result. \<open>None\<close> when the rounded value is \<open>2 ^ 1024\<close> or more, beyond the
  largest float.
\<close>

definition nearest_double :: "int \<Rightarrow> int \<Rightarrow> int \<Rightarrow> (int \<times> int) option" where
  "nearest_double n d s =
     (if n = 0 then Some (0, 0)
      else
        (let k = floor_log2 n d + s;
             e = max (k - 52) (- 1074);
             m = (if s \<ge> e then round_half_even (n * 2 ^ nat (s - e)) d
                  else round_half_even n (d * 2 ^ nat (e - s)))
         in if e > 971 \<or> (e = 971 \<and> m \<ge> 2 ^ 53) then None else Some (m, e)))"

definition double_value :: "int \<times> int \<Rightarrow> rat" where
  "double_value p = of_int (fst p) * 2 powi (snd p)"

text \<open>
  \<^verbatim>\<open>a / b\<close> on two integers: the float nearest to the quotient. It raises for a divisor
  0, and \<^verbatim>\<open>OverflowError\<close> when the quotient is beyond the floats.
\<close>

definition int_true_div :: "int \<Rightarrow> int \<Rightarrow> exc + (int \<times> int)" where
  "int_true_div a b =
     (if b = 0 then Inl ZeroDivisionError
      else
        (case nearest_double \<bar>a\<bar> \<bar>b\<bar> 0 of
           None \<Rightarrow> Inl OverflowError
         | Some (m, e) \<Rightarrow> Inr (if (a < 0) \<noteq> (b < 0) then (- m, e) else (m, e))))"

text \<open>
  \<^verbatim>\<open>x * 100\<close> for a float \<open>x\<close>: 100 is a float exactly, and the product is rounded; beyond
  the floats it is an infinity, without an exception.
\<close>

definition double_times_100 :: "int \<times> int \<Rightarrow> pyfloat" where
  "double_times_100 p =
     (case nearest_double (\<bar>fst p\<bar> * 100) 1 (snd p) of
        None \<Rightarrow> (if fst p < 0 then NegInf else PosInf)
      | Some (m, e) \<Rightarrow> Finite (double_value (if fst p < 0 then - m else m, e)))"

text \<open>
  \<^verbatim>\<open>(total_errors / total_requests * 100) if total_requests > 0 else 0\<close>. The integer 0 of
  the last branch is the float of value 0 here.
\<close>

definition percent_or_zero :: "int \<Rightarrow> int \<Rightarrow> exc + pyfloat" where
  "percent_or_zero terr treq =
     (if treq > 0 then
        (case int_true_div terr treq of
           Inl e \<Rightarrow> Inl e
         | Inr q \<Rightarrow> Inr (double_times_100 q))
      else Inr (Finite 0))"

subsection \<open>The report\<close>

record summary =
  total_requests :: int
  total_errors :: int
  error_rate :: pyfloat
  available_keys :: nat
  health_status :: string

record api_status =
  total_keys :: nat
  status_key_index :: nat
  keys_status :: "key_status list"
  status_summary :: summary

definition key_status_entry :: "manager \<Rightarrow> nat \<Rightarrow> string \<Rightarrow> key_stats \<Rightarrow> key_status" where
  "key_status_entry s i key stats =
     \<lparr>ks_index = i,
      ks_key_preview = take 10 key @ ''...'' @ drop (length key - 4) key,
      ks_requests = requests stats,
      ks_errors = errors stats,
      ks_last_used = last_used stats,
      ks_credits_exhausted = credits_exhausted stats,
      ks_rate_limited = rate_limited stats,
      ks_in_cooldown = (map_of (key_cooldowns s) key \<noteq> None),
      ks_available = (\<not> credits_exhausted stats \<and> \<not> rate_limited stats
                      \<and> map_of (key_cooldowns s) key = None),
      ks_cooldown_until = map_of (key_cooldowns s) key\<rparr>"

text \<open>The loop over \<^verbatim>\<open>enumerate(self.api_keys)\<close>, from index \<open>i\<close>.\<close>

fun keys_status_from :: "manager \<Rightarrow> nat \<Rightarrow> string list \<Rightarrow> exc + key_status list" where
  "keys_status_from s i [] = Inr []"
| "keys_status_from s i (key # keys) =
     (case map_of (key_usage_stats s) key of
        None \<Rightarrow> Inl (KeyError key)
      | Some stats \<Rightarrow>
          (case keys_status_from s (i + 1) keys of
             Inl e \<Rightarrow> Inl e
           | Inr r \<Rightarrow> Inr (key_status_entry s i key stats # r)))"

text \<open>\<^verbatim>\<open>get_api_status\<close> reads the manager and writes nothing.\<close>

definition get_api_status :: "manager \<Rightarrow> exc + api_status" where
  "get_api_status s =
     (case keys_status_from s 0 (api_keys s) of
        Inl e \<Rightarrow> Inl e
      | Inr ks \<Rightarrow>
          (let treq = sum_list (map (\<lambda>(k, st). requests st) (key_usage_stats s));
               terr = sum_list (map (\<lambda>(k, st). errors st) (key_usage_stats s));
               avail = length (filter ks_available ks)
           in case percent_or_zero terr treq of
                Inl e \<Rightarrow> Inl e
              | Inr rate \<Rightarrow>
                  Inr \<lparr>total_keys = length (api_keys s),
                       status_key_index = current_key_index s,
                       keys_status = ks,
                       status_summary =
                         \<lparr>total_requests = treq,
                          total_errors = terr,
                          error_rate = rate,
                          available_keys = avail,
                          health_status = (if avail > 0 then ''healthy'' else ''degraded'')\<rparr>\<rparr>))"

text \<open>\<^verbatim>\<open>reset_key_status\<close>: the loop of the branch without an index, then both branches.\<close>

definition clear_flags :: "key_stats \<Rightarrow> key_stats" where
  "clear_flags stats = stats\<lparr>credits_exhausted := False, rate_limited := False\<rparr>"

fun reset_flags_of :: "manager \<Rightarrow> string list \<Rightarrow> manager \<times> exc option" where
  "reset_flags_of s [] = (s, None)"
| "reset_flags_of s (key # keys) =
     (case map_of (key_usage_stats s) key of
        None \<Rightarrow> (s, Some (KeyError key))
      | Some stats \<Rightarrow>
          reset_flags_of
            (s\<lparr>key_usage_stats := AList.update key (clear_flags stats) (key_usage_stats s)\<rparr>) keys)"

definition reset_key_status :: "manager \<Rightarrow> int option \<Rightarrow> manager \<times> exc option" where
  "reset_key_status s key_index =
     (case key_index of
        Some i \<Rightarrow>
          (if 0 \<le> i \<and> i < int (length (api_keys s)) then
             (let key = api_keys s ! nat i in
              case map_of (key_usage_stats s) key of
                None \<Rightarrow> (s, Some (KeyError key))
              | Some stats \<Rightarrow>
                  (s\<lparr>key_usage_stats := AList.update key (clear_flags stats) (key_usage_stats s),
                      key_cooldowns := AList.delete key (key_cooldowns s)\<rparr>, None))
           else (s, None))
      | None \<Rightarrow>
          (case reset_flags_of s (api_keys s) of
             (s', Some e) \<Rightarrow> (s', Some e)
           | (s', None) \<Rightarrow> (s'\<lparr>key_cooldowns := []\<rparr>, None)))"

section \<open>Specification vocabulary\<close>

text \<open>
  The states the manager can be in: what the constructor establishes and every method keeps
  (\<open>init_manager_invariant\<close> and the lemmas named \<open>_invariant\<close> below). The pool is
  not empty, the rotation pointer is inside it, every key of the pool has its statistics,
  the dictionaries have one entry per key, and the constants are the constructor's.
\<close>

definition invariant :: "manager \<Rightarrow> bool" where
  "invariant s \<longleftrightarrow>
     api_keys s \<noteq> []
     \<and> current_key_index s < length (api_keys s)
     \<and> set (api_keys s) \<subseteq> fst ` set (key_usage_stats s)
     \<and> distinct (map fst (key_usage_stats s))
     \<and> distinct (map fst (key_cooldowns s))
     \<and> max_retries s = 3
     \<and> model_fallback_chain s = default_chain"

text \<open>
  The spec's \<^verbatim>\<open>isUsable(credential, now)\<close>. The source has no such function: these are
  the two tests that \<^verbatim>\<open>_get_next_available_key\<close> makes on the key under the pointer
  (lines 80 to 92), read off without the deletion of an expired entry.
\<close>

definition is_usable :: "manager \<Rightarrow> string \<Rightarrow> time \<Rightarrow> bool" where
  "is_usable s key now \<longleftrightarrow>
     (case map_of (key_usage_stats s) key of
        None \<Rightarrow> False
      | Some stats \<Rightarrow>
          \<not> credits_exhausted stats \<and> \<not> rate_limited stats
          \<and> (case map_of (key_cooldowns s) key of
                None \<Rightarrow> True
              | Some cooldown_until \<Rightarrow> \<not> now < cooldown_until))"

text \<open>The key the scan examines in its iteration \<open>i\<close>, counted from 0.\<close>

definition candidate :: "manager \<Rightarrow> nat \<Rightarrow> string" where
  "candidate s i = api_keys s ! ((current_key_index s + i) mod length (api_keys s))"

text \<open>\<^verbatim>\<open>errorCount\<close> of a credential, and whether one of its two flags is set.\<close>

definition error_count :: "manager \<Rightarrow> string \<Rightarrow> int" where
  "error_count s key = (case map_of (key_usage_stats s) key of None \<Rightarrow> 0 | Some stats \<Rightarrow> errors stats)"

definition flagged :: "manager \<Rightarrow> string \<Rightarrow> bool" where
  "flagged s key \<longleftrightarrow>
     (case map_of (key_usage_stats s) key of
        None \<Rightarrow> False
      | Some stats \<Rightarrow> credits_exhausted stats \<or> rate_limited stats)"

text \<open>
  The error classes of the spec, decided as the \<^verbatim>\<open>if\<close>/\<^verbatim>\<open>elif\<close>/\<^verbatim>\<open>else\<close> of
  \<^verbatim>\<open>_handle_api_error\<close> decides them.
\<close>

datatype error_class = InsufficientCredits | RateLimited | Other

definition classify :: "exc \<Rightarrow> error_class" where
  "classify error =
     (let error_str = lower (exc_str error)
      in if credit_signal error_str then InsufficientCredits
         else if rate_limit_signal error_str then RateLimited
         else Other)"

text \<open>The position in the fallback chain of the model that a degraded request names.\<close>

definition degraded_index :: "manager \<Rightarrow> 'p request \<Rightarrow> int \<Rightarrow> nat" where
  "degraded_index s kwargs attempt =
     index_of (model_fallback_chain s) (the (model (maybe_adjust_request s kwargs attempt)))"

text \<open>
  The invariant of the scan loop, relating the manager \<open>s\<close> at the head of iteration
  \<open>a\<close> to the manager \<open>s0\<close> the scan started from: the pointer has advanced \<open>a\<close> times
  and the only cooldown entries gone are entries of keys with a flag set. \<open>selected\<close> is
  what holds of the manager a selection returns.
\<close>

definition scanned :: "manager \<Rightarrow> manager \<Rightarrow> nat \<Rightarrow> bool" where
  "scanned s0 s a \<longleftrightarrow>
     api_keys s = api_keys s0
     \<and> key_usage_stats s = key_usage_stats s0
     \<and> base_url s = base_url s0
     \<and> max_retries s = max_retries s0
     \<and> retry_delay s = retry_delay s0
     \<and> model_fallback_chain s = model_fallback_chain s0
     \<and> current_key_index s = (current_key_index s0 + a) mod length (api_keys s0)
     \<and> distinct (map fst (key_cooldowns s))
     \<and> (\<forall>k. map_of (key_cooldowns s) k = map_of (key_cooldowns s0) k
            \<or> (map_of (key_cooldowns s) k = None \<and> flagged s0 k))"

definition selected :: "manager \<Rightarrow> manager \<Rightarrow> nat \<Rightarrow> bool" where
  "selected s0 s j \<longleftrightarrow>
     api_keys s = api_keys s0
     \<and> key_usage_stats s = key_usage_stats s0
     \<and> base_url s = base_url s0
     \<and> max_retries s = max_retries s0
     \<and> retry_delay s = retry_delay s0
     \<and> model_fallback_chain s = model_fallback_chain s0
     \<and> current_key_index s = (current_key_index s0 + j) mod length (api_keys s0)
     \<and> distinct (map fst (key_cooldowns s))
     \<and> (\<forall>k. map_of (key_cooldowns s) k = map_of (key_cooldowns s0) k
            \<or> map_of (key_cooldowns s) k = None)"

subsection \<open>Concrete managers\<close>

text \<open>A manager with one key and one with two, as the constructor builds them.\<close>

definition one_key_env :: "string \<rightharpoonup> string" where
  "one_key_env = [''OPENROUTER_API_KEY'' \<mapsto> ''sk-or-primary'']"

definition two_key_env :: "string \<rightharpoonup> string" where
  "two_key_env = [''OPENROUTER_API_KEY'' \<mapsto> ''sk-or-primary'',
                  ''OPENROUTER_API_KEY_1'' \<mapsto> ''sk-or-backup'']"

definition manager_of :: "string list \<Rightarrow> manager" where
  "manager_of keys =
     \<lparr>base_url = ''https://openrouter.ai/api/v1'',
      api_keys = keys,
      current_key_index = 0,
      key_usage_stats = map (\<lambda>k. (k, fresh_stats)) keys,
      key_cooldowns = [],
      max_retries = 3,
      retry_delay = 2,
      model_fallback_chain = default_chain\<rparr>"

definition one_key :: manager where
  "one_key = manager_of [''sk-or-primary'']"

definition two_keys :: manager where
  "two_keys = manager_of [''sk-or-primary'', ''sk-or-backup'']"

text \<open>A clock that reads \<open>t\<close> in every iteration of a scan.\<close>

definition steady :: "time \<Rightarrow> nat \<Rightarrow> time" where
  "steady t i = t"

text \<open>
  Managers after some failures: two keys both cooling down (the first also rate limited),
  and two keys of which the first is cooling down.
\<close>

definition both_cooling :: manager where
  "both_cooling =
     (manager_of [''sk-or-primary'', ''sk-or-backup''])
       \<lparr>key_usage_stats :=
          [(''sk-or-primary'', \<lparr>requests = 2, errors = 2, last_used = Some 40000000,
                                 credits_exhausted = False, rate_limited = True\<rparr>),
           (''sk-or-backup'', \<lparr>requests = 1, errors = 1, last_used = Some 20000000,
                                credits_exhausted = False, rate_limited = False\<rparr>)],
        key_cooldowns := [(''sk-or-primary'', 100000000), (''sk-or-backup'', 50000000)]\<rparr>"

definition primary_cooling :: manager where
  "primary_cooling =
     (manager_of [''sk-or-primary'', ''sk-or-backup''])
       \<lparr>key_usage_stats :=
          [(''sk-or-primary'', \<lparr>requests = 1, errors = 1, last_used = Some 20000000,
                                 credits_exhausted = False, rate_limited = False\<rparr>),
           (''sk-or-backup'', fresh_stats)],
        key_cooldowns := [(''sk-or-primary'', 50000000)]\<rparr>"

text \<open>
  What no method changes, and the statistics of a key after
  \<^verbatim>\<open>stats['requests'] += 1; stats['last_used'] = datetime.now()\<close>.
\<close>

definition same_setup :: "manager \<Rightarrow> manager \<Rightarrow> bool" where
  "same_setup s s' \<longleftrightarrow>
     api_keys s' = api_keys s \<and> base_url s' = base_url s
     \<and> model_fallback_chain s' = model_fallback_chain s"

definition recorded_use :: "key_stats \<Rightarrow> time \<Rightarrow> key_stats" where
  "recorded_use st t = st\<lparr>requests := requests st + 1, last_used := Some t\<rparr>"

text \<open>What a run of the loop adds to the dispatches made before it.\<close>

definition loop_outcome ::
  "('p, 'r) world \<Rightarrow> 'p request \<Rightarrow> manager \<Rightarrow> nat list \<Rightarrow> exc option \<Rightarrow> 'p call list \<Rightarrow> (exc + 'r) \<Rightarrow> bool" where
  "loop_outcome w kwargs s attempts last_error made r \<longleftrightarrow>
     map fst made = take (length made) attempts
     \<and> (\<forall>c \<in> set made. \<exists>k \<in> set (api_keys s).
           snd c = (create_client s k, maybe_adjust_request s kwargs (int (fst c))))
     \<and> (\<forall>c \<in> set (butlast made). isl (run_call w c))
     \<and> (case r of
           Inr x \<Rightarrow> made \<noteq> [] \<and> run_call w (last made) = Inr x
         | Inl e \<Rightarrow> length made = length attempts
                    \<and> (if made = [] then Some e = (case last_error of None \<Rightarrow> Some TypeError | Some e' \<Rightarrow> Some e')
                        else run_call w (last made) = Inl e))"

text \<open>
  Worlds: one whose transport fails every dispatch with a time-out, and one whose transport
  refuses the first key for lack of credits and serves every other key. The clock reads 0,
  3 and 6 seconds at the three selections. \<open>ask\<close> is a request for a model outside the
  chain.
\<close>

definition failing_world :: "(unit, string) world" where
  "failing_world =
     \<lparr>select_clock = (\<lambda>n. steady (int n * 3000000)),
      use_clock = (\<lambda>n. int n * 3000000 + 1000),
      error_clock = (\<lambda>n. int n * 3000000 + 900000),
      dispatch = (\<lambda>n cl req.
         Inl (TransportError (if n = 0 then ''timeout on attempt 0''
                              else if n = 1 then ''timeout on attempt 1''
                              else ''timeout on attempt 2'')))\<rparr>"

definition primary_broke_world :: "(unit, string) world" where
  "primary_broke_world =
     \<lparr>select_clock = (\<lambda>n. steady (int n * 3000000)),
      use_clock = (\<lambda>n. int n * 3000000 + 1000),
      error_clock = (\<lambda>n. int n * 3000000 + 900000),
      dispatch = (\<lambda>n cl req.
         if client_api_key cl = ''sk-or-primary''
         then Inl (TransportError ''Error code: 402 - Insufficient credits'')
         else Inr ''completion'')\<rparr>"

definition ask :: "unit request" where
  "ask = \<lparr>model = Some ''custom/model'', max_tokens = Some 4096, payload = ()\<rparr>"

text \<open>The managers that the two runs leave behind.\<close>

definition after_failures :: manager where
  "after_failures = fst (chat_completion failing_world ask one_key)"

definition after_fallback :: manager where
  "after_fallback = fst (chat_completion primary_broke_world ask two_keys)"

text \<open>
  A world whose transport fails the first dispatch of a call and serves the others, and the
  manager after two calls in it: three requests, one of them failed.
\<close>

definition flaky_world :: "(unit, string) world" where
  "flaky_world =
     \<lparr>select_clock = (\<lambda>n. steady (int n * 3000000)),
      use_clock = (\<lambda>n. int n * 3000000 + 1000),
      error_clock = (\<lambda>n. int n * 3000000 + 900000),
      dispatch = (\<lambda>n cl req.
         if n = 0 then Inl (TransportError ''timeout on attempt 0'') else Inr ''completion'')\<rparr>"

definition serving_world :: "(unit, string) world" where
  "serving_world =
     \<lparr>select_clock = (\<lambda>n. steady (60000000 + int n * 3000000)),
      use_clock = (\<lambda>n. 60000000 + int n * 3000000 + 1000),
      error_clock = (\<lambda>n. 60000000 + int n * 3000000 + 900000),
      dispatch = (\<lambda>n cl req. Inr ''completion'')\<rparr>"

definition after_two_calls :: manager where
  "after_two_calls =
     fst (chat_completion serving_world ask (fst (chat_completion flaky_world ask one_key)))"

section \<open>Lemmas: dictionaries and the scan\<close>

declare scan_keys.simps [simp del]

lemma map_of_update_same: "map_of (AList.update k v al) k = Some v"
  by (simp add: update_conv')

subsection \<open>Two runs, evaluated\<close>

lemmas run_defs =
  chat_completion_def try_attempt_def get_next_available_key_def scan_keys.simps
  rotate_to_next_key_def least_errors_key_def handle_api_error_def maybe_adjust_request_def
  adjust_max_tokens_def adjust_model_def create_client_def one_key_def two_keys_def
  manager_of_def fresh_stats_def failing_world_def primary_broke_world_def flaky_world_def
  serving_world_def ask_def steady_def
  lower_def lower_char_def credit_signal_def rate_limit_signal_def timedelta_seconds_def
  timedelta_minutes_def default_chain_def Let_def run_call_def upt_rec

lemma failing_run:
  "chat_completion failing_world ask one_key =
     (one_key\<lparr>key_usage_stats :=
         [(''sk-or-primary'', \<lparr>requests = 3, errors = 3, last_used = Some 6001000,
                                credits_exhausted = False, rate_limited = False\<rparr>)],
        key_cooldowns := [(''sk-or-primary'', 36900000)]\<rparr>,
      [(0, \<lparr>client_base_url = ''https://openrouter.ai/api/v1'', client_api_key = ''sk-or-primary''\<rparr>,
           \<lparr>model = Some ''custom/model'', max_tokens = Some 4096, payload = ()\<rparr>),
       (1, \<lparr>client_base_url = ''https://openrouter.ai/api/v1'', client_api_key = ''sk-or-primary''\<rparr>,
           \<lparr>model = Some ''qwen/qwen-2.5-72b-instruct'', max_tokens = Some 2048, payload = ()\<rparr>),
       (2, \<lparr>client_base_url = ''https://openrouter.ai/api/v1'', client_api_key = ''sk-or-primary''\<rparr>,
           \<lparr>model = Some ''qwen/qwen-2.5-72b-instruct'', max_tokens = Some 1024, payload = ()\<rparr>)],
      Inl (TransportError ''timeout on attempt 2''))"
  by (simp add: run_defs)

lemma fallback_run:
  "chat_completion primary_broke_world ask two_keys =
     (two_keys\<lparr>key_usage_stats :=
         [(''sk-or-primary'', \<lparr>requests = 1, errors = 1, last_used = Some 1000,
                                credits_exhausted = True, rate_limited = False\<rparr>),
          (''sk-or-backup'', \<lparr>requests = 1, errors = 0, last_used = Some 3001000,
                               credits_exhausted = False, rate_limited = False\<rparr>)],
        key_cooldowns := [(''sk-or-primary'', 1800900000)]\<rparr>,
      [(0, \<lparr>client_base_url = ''https://openrouter.ai/api/v1'', client_api_key = ''sk-or-primary''\<rparr>,
           \<lparr>model = Some ''custom/model'', max_tokens = Some 4096, payload = ()\<rparr>),
       (1, \<lparr>client_base_url = ''https://openrouter.ai/api/v1'', client_api_key = ''sk-or-backup''\<rparr>,
           \<lparr>model = Some ''qwen/qwen-2.5-72b-instruct'', max_tokens = Some 2048, payload = ()\<rparr>)],
      Inr ''completion'')"
  by (simp add: run_defs)

lemma after_failures_eq:
  "after_failures =
     one_key\<lparr>key_usage_stats :=
         [(''sk-or-primary'', \<lparr>requests = 3, errors = 3, last_used = Some 6001000,
                                credits_exhausted = False, rate_limited = False\<rparr>)],
        key_cooldowns := [(''sk-or-primary'', 36900000)]\<rparr>"
  by (simp add: after_failures_def failing_run)

lemma after_fallback_eq:
  "after_fallback =
     two_keys\<lparr>key_usage_stats :=
         [(''sk-or-primary'', \<lparr>requests = 1, errors = 1, last_used = Some 1000,
                                credits_exhausted = True, rate_limited = False\<rparr>),
          (''sk-or-backup'', \<lparr>requests = 1, errors = 0, last_used = Some 3001000,
                               credits_exhausted = False, rate_limited = False\<rparr>)],
        key_cooldowns := [(''sk-or-primary'', 1800900000)]\<rparr>"
  by (simp add: after_fallback_def fallback_run)

lemma one_key_invariant: "invariant one_key"
  by (simp add: invariant_def one_key_def manager_of_def)

lemma two_keys_invariant: "invariant two_keys"
  by (simp add: invariant_def two_keys_def manager_of_def)

subsection \<open>The scan\<close>

lemma scanned_usable:
  assumes "scanned s0 s a"
  shows "is_usable s k t = is_usable s0 k t"
proof -
  have st: "key_usage_stats s = key_usage_stats s0"
    using assms by (simp add: scanned_def)
  have "map_of (key_cooldowns s) k = map_of (key_cooldowns s0) k
        \<or> (map_of (key_cooldowns s) k = None \<and> flagged s0 k)"
    using assms by (simp add: scanned_def)
  then show ?thesis
  proof
    assume "map_of (key_cooldowns s) k = map_of (key_cooldowns s0) k"
    then show ?thesis by (auto simp: is_usable_def st split: option.splits)
  next
    assume "map_of (key_cooldowns s) k = None \<and> flagged s0 k"
    then show ?thesis
      by (auto simp: is_usable_def st flagged_def split: option.splits)
  qed
qed

lemma scanned_rotate:
  assumes "scanned s0 s a" and "api_keys s0 \<noteq> []"
  shows "\<exists>s'. rotate_to_next_key s = Inr s' \<and> scanned s0 s' (a + 1)"
  using assms
  by (simp add: rotate_to_next_key_def scanned_def mod_Suc_eq)

lemma scanned_delete:
  assumes "scanned s0 s a" and "flagged s0 key"
  shows "scanned s0 (s\<lparr>key_cooldowns := AList.delete key (key_cooldowns s)\<rparr>) a"
  using assms
  by (auto simp: scanned_def distinct_delete delete_conv')


lemma scanned_selected: "scanned s0 s a \<Longrightarrow> selected s0 s a"
  by (auto simp: scanned_def selected_def)

lemma scanned_selected_delete:
  "scanned s0 s a \<Longrightarrow> selected s0 (s\<lparr>key_cooldowns := AList.delete key (key_cooldowns s)\<rparr>) a"
  by (auto simp: scanned_def selected_def distinct_delete delete_conv')

lemma scan_keys_char:
  assumes ne: "api_keys s0 \<noteq> []"
    and known: "\<forall>k \<in> set (api_keys s0). map_of (key_usage_stats s0) k \<noteq> None"
  shows "scanned s0 s a \<Longrightarrow> a \<le> length (api_keys s0) \<Longrightarrow> scan_keys s clock a = (s', r) \<Longrightarrow>
         (\<exists>j. a \<le> j \<and> j < length (api_keys s0)
              \<and> r = Inr (Some (candidate s0 j))
              \<and> is_usable s0 (candidate s0 j) (clock j)
              \<and> (\<forall>i. a \<le> i \<and> i < j \<longrightarrow> \<not> is_usable s0 (candidate s0 i) (clock i))
              \<and> selected s0 s' j)
         \<or> (r = Inr None
              \<and> (\<forall>i. a \<le> i \<and> i < length (api_keys s0) \<longrightarrow> \<not> is_usable s0 (candidate s0 i) (clock i))
              \<and> scanned s0 s' (length (api_keys s0)))"
proof (induction "length (api_keys s0) - a" arbitrary: s a)
  case 0
  then have "a = length (api_keys s0)" by simp
  moreover have "api_keys s = api_keys s0" using "0.prems"(1) by (simp add: scanned_def)
  ultimately have "scan_keys s clock a = (s, Inr None)"
    by (subst scan_keys.simps) simp
  with "0.prems" \<open>a = length (api_keys s0)\<close> show ?case by auto
next
  case (Suc d)
  let ?goal = ?case
  let ?n = "length (api_keys s0)"
  let ?key = "api_keys s ! current_key_index s"
  from Suc.hyps(2) have a: "a < ?n" by simp
  have keys: "api_keys s = api_keys s0" and stats: "key_usage_stats s = key_usage_stats s0"
    and idx: "current_key_index s = (current_key_index s0 + a) mod ?n"
    using Suc.prems(1) by (simp_all add: scanned_def)
  have idx_lt: "current_key_index s < length (api_keys s)"
    using idx keys ne by simp
  have key: "?key = candidate s0 a"
    by (simp add: candidate_def idx keys)
  have "?key \<in> set (api_keys s0)" using idx_lt keys by (metis nth_mem)
  then obtain st where st: "map_of (key_usage_stats s) ?key = Some st"
    using known stats by auto
  have us: "is_usable s ?key t = is_usable s0 ?key t" for t
    by (rule scanned_usable[OF Suc.prems(1)])
  have continue: "?goal" if sc: "scanned s0 s1 a" and nu: "\<not> is_usable s0 ?key (clock a)"
    and run: "\<And>s2. rotate_to_next_key s1 = Inr s2 \<Longrightarrow> scan_keys s2 clock (a + 1) = (s', r)"
    for s1
  proof -
    from scanned_rotate[OF sc ne] obtain s2
      where rot: "rotate_to_next_key s1 = Inr s2" and sc2: "scanned s0 s2 (a + 1)" by auto
    have d: "d = ?n - (a + 1)" using Suc.hyps(2) by simp
    have le: "a + 1 \<le> ?n" using a by simp
    from Suc.hyps(1)[OF d sc2 le run[OF rot]]
    show ?goal
    proof
      assume "\<exists>j. a + 1 \<le> j \<and> j < ?n \<and> r = Inr (Some (candidate s0 j))
                \<and> is_usable s0 (candidate s0 j) (clock j)
                \<and> (\<forall>i. a + 1 \<le> i \<and> i < j \<longrightarrow> \<not> is_usable s0 (candidate s0 i) (clock i))
                \<and> selected s0 s' j"
      then obtain j where j: "a + 1 \<le> j" "j < ?n" "r = Inr (Some (candidate s0 j))"
        "is_usable s0 (candidate s0 j) (clock j)"
        "\<forall>i. a + 1 \<le> i \<and> i < j \<longrightarrow> \<not> is_usable s0 (candidate s0 i) (clock i)"
        "selected s0 s' j" by blast
      have "\<forall>i. a \<le> i \<and> i < j \<longrightarrow> \<not> is_usable s0 (candidate s0 i) (clock i)"
      proof (intro allI impI)
        fix i assume "a \<le> i \<and> i < j"
        then consider "i = a" | "a + 1 \<le> i \<and> i < j" by linarith
        then show "\<not> is_usable s0 (candidate s0 i) (clock i)"
          using nu key j(5) by cases auto
      qed
      with j show ?goal by (intro disjI1 exI[of _ j]) auto
    next
      assume rest: "r = Inr None
                \<and> (\<forall>i. a + 1 \<le> i \<and> i < ?n \<longrightarrow> \<not> is_usable s0 (candidate s0 i) (clock i))
                \<and> scanned s0 s' ?n"
      have "\<forall>i. a \<le> i \<and> i < ?n \<longrightarrow> \<not> is_usable s0 (candidate s0 i) (clock i)"
      proof (intro allI impI)
        fix i assume "a \<le> i \<and> i < ?n"
        then consider "i = a" | "a + 1 \<le> i \<and> i < ?n" by linarith
        then show "\<not> is_usable s0 (candidate s0 i) (clock i)"
          using nu key rest by cases auto
      qed
      with rest show ?goal by simp
    qed
  qed
  have found: "?goal" if "is_usable s0 ?key (clock a)" and "r = Inr (Some ?key)"
    and "selected s0 s' a"
    using that a key by (intro disjI1 exI[of _ a]) auto
  show ?goal
  proof (cases "map_of (key_cooldowns s) ?key")
    case None
    show ?goal
    proof (cases "\<not> credits_exhausted st \<and> \<not> rate_limited st")
      case True
      then have "scan_keys s clock a = (s, Inr (Some ?key))"
        using a keys idx_lt st None by (subst scan_keys.simps) (simp add: Let_def)
      moreover have "is_usable s ?key (clock a)"
        using True st None by (simp add: is_usable_def)
      ultimately show ?goal
        using found us Suc.prems(3) scanned_selected[OF Suc.prems(1)] by auto
    next
      case False
      then have nu: "\<not> is_usable s0 ?key (clock a)"
        using st us[symmetric] by (auto simp: is_usable_def)
      have "scan_keys s2 clock (a + 1) = (s', r)" if "rotate_to_next_key s = Inr s2" for s2
        using Suc.prems(3) that a keys idx_lt st None False
        by (subst (asm) scan_keys.simps) (auto simp: Let_def)
      then show ?goal using continue[OF Suc.prems(1) nu] by blast
    qed
  next
    case (Some cu)
    show ?goal
    proof (cases "clock a < cu")
      case True
      then have nu: "\<not> is_usable s0 ?key (clock a)"
        using st Some us[symmetric] by (auto simp: is_usable_def)
      have "scan_keys s2 clock (a + 1) = (s', r)" if "rotate_to_next_key s = Inr s2" for s2
        using Suc.prems(3) that a keys idx_lt st Some True
        by (subst (asm) scan_keys.simps) (auto simp: Let_def)
      then show ?goal using continue[OF Suc.prems(1) nu] by blast
    next
      case expired: False
      let ?s1 = "s\<lparr>key_cooldowns := AList.delete ?key (key_cooldowns s)\<rparr>"
      show ?goal
      proof (cases "\<not> credits_exhausted st \<and> \<not> rate_limited st")
        case True
        then have "scan_keys s clock a = (?s1, Inr (Some ?key))"
          using a keys idx_lt st Some expired by (subst scan_keys.simps) (simp add: Let_def)
        moreover have "is_usable s ?key (clock a)"
          using True st Some expired by (simp add: is_usable_def)
        ultimately show ?goal
          using found us Suc.prems(3) scanned_selected_delete[OF Suc.prems(1)] by auto
      next
        case False
        then have nu: "\<not> is_usable s0 ?key (clock a)"
          using st us[symmetric] by (auto simp: is_usable_def)
        have fl: "flagged s0 ?key" using False st stats by (auto simp: flagged_def)
        have "scan_keys s2 clock (a + 1) = (s', r)" if "rotate_to_next_key ?s1 = Inr s2" for s2
          using Suc.prems(3) that a keys idx_lt st Some expired False
          by (subst (asm) scan_keys.simps) (auto simp: Let_def)
        then show ?goal using continue[OF scanned_delete[OF Suc.prems(1) fl] nu] by blast
      qed
    qed
  qed
qed


lemma error_counts_known:
  "\<forall>k \<in> set ks. map_of (key_usage_stats s) k \<noteq> None \<Longrightarrow>
   error_counts s ks = Inr (map (\<lambda>k. (k, error_count s k)) ks)"
  by (induction ks) (auto simp: error_count_def)

lemma error_counts_cong:
  "key_usage_stats s' = key_usage_stats s \<Longrightarrow> error_counts s' ks = error_counts s ks"
  by (induction ks) (auto split: option.splits)

lemma least_errors_key_cong:
  assumes "api_keys s' = api_keys s" and "key_usage_stats s' = key_usage_stats s"
  shows "least_errors_key s' = least_errors_key s"
proof -
  have e: "error_counts s' (api_keys s) = error_counts s (api_keys s)"
    by (rule error_counts_cong) fact
  show ?thesis by (simp only: least_errors_key_def assms(1) e)
qed

lemma min_from_first_min:
  "\<exists>m pre post. min_from (kb, f kb) (map (\<lambda>k. (k, f k)) ks) = (m, f m)
       \<and> kb # ks = pre @ m # post
       \<and> (\<forall>k \<in> set pre. f m < f k) \<and> (\<forall>k \<in> set post. f m \<le> f k)"
proof (induction ks arbitrary: kb)
  case Nil
  have "min_from (kb, f kb) (map (\<lambda>k. (k, f k)) []) = (kb, f kb) \<and> kb # [] = [] @ kb # []
        \<and> (\<forall>k \<in> set []. f kb < f k) \<and> (\<forall>k \<in> set []. f kb \<le> f k)" by simp
  then show ?case by blast
next
  case (Cons x ks)
  let ?g = "\<lambda>k. (k, f k)"
  show ?case
  proof (cases "f x < f kb")
    case True
    from Cons.IH[of x] obtain m pre post where
      m: "min_from (x, f x) (map ?g ks) = (m, f m)" "x # ks = pre @ m # post"
         "\<forall>k \<in> set pre. f m < f k" "\<forall>k \<in> set post. f m \<le> f k" by blast
    have step: "min_from (kb, f kb) (map ?g (x # ks)) = min_from (x, f x) (map ?g ks)"
      using True by simp
    have "x \<in> set (pre @ m # post)" using m(2) by (metis list.set_intros(1))
    then have "f m \<le> f x" using m(3,4) by auto
    then have lt: "f m < f kb" using True by simp
    have dec: "kb # x # ks = (kb # pre) @ m # post" using m(2) by simp
    have "\<forall>k \<in> set (kb # pre). f m < f k" using lt m(3) by simp
    moreover have "min_from (kb, f kb) (map ?g (x # ks)) = (m, f m)"
      by (simp only: step m(1))
    ultimately show ?thesis using dec m(4) by blast
  next
    case False
    from Cons.IH[of kb] obtain m pre post where
      m: "min_from (kb, f kb) (map ?g ks) = (m, f m)" "kb # ks = pre @ m # post"
         "\<forall>k \<in> set pre. f m < f k" "\<forall>k \<in> set post. f m \<le> f k" by blast
    have step: "min_from (kb, f kb) (map ?g (x # ks)) = min_from (kb, f kb) (map ?g ks)"
      using False by simp
    show ?thesis
    proof (cases pre)
      case Nil
      then have eq: "m = kb" "post = ks" using m(2) by simp_all
      have dec: "kb # x # ks = [] @ kb # (x # ks)" by simp
      have "\<forall>k \<in> set (x # ks). f kb \<le> f k" using m(4) eq False by auto
      moreover have "\<forall>k \<in> set []. f kb < f k" by simp
      moreover have "min_from (kb, f kb) (map ?g (x # ks)) = (kb, f kb)"
        using m(1) eq(1) by (simp only: step)
      ultimately show ?thesis using dec by blast
    next
      case (Cons p pre')
      then have eq: "p = kb" "ks = pre' @ m # post" using m(2) by simp_all
      have lt: "f m < f kb" using m(3) Cons eq(1) by simp
      have dec: "kb # x # ks = (kb # x # pre') @ m # post" using eq(2) by simp
      have "\<forall>k \<in> set (kb # x # pre'). f m < f k" using lt m(3) Cons False by auto
      moreover have "min_from (kb, f kb) (map ?g (x # ks)) = (m, f m)"
        by (simp only: step m(1))
      ultimately show ?thesis using dec m(4) by blast
    qed
  qed
qed

lemma least_errors_key_char:
  assumes "api_keys s \<noteq> []"
    and "\<forall>k \<in> set (api_keys s). map_of (key_usage_stats s) k \<noteq> None"
  shows "\<exists>m pre post. least_errors_key s = Inr m \<and> api_keys s = pre @ m # post
           \<and> (\<forall>k \<in> set pre. error_count s m < error_count s k)
           \<and> (\<forall>k \<in> set post. error_count s m \<le> error_count s k)"
proof -
  from assms(1) obtain kb ks where ks: "api_keys s = kb # ks" by (cases "api_keys s") auto
  from min_from_first_min[of kb "error_count s" ks] obtain m pre post where
    m: "min_from (kb, error_count s kb) (map (\<lambda>k. (k, error_count s k)) ks) = (m, error_count s m)"
       "kb # ks = pre @ m # post"
       "\<forall>k \<in> set pre. error_count s m < error_count s k"
       "\<forall>k \<in> set post. error_count s m \<le> error_count s k" by blast
  have "least_errors_key s = Inr m"
    using error_counts_known[OF assms(2)] ks m(1) by (simp add: least_errors_key_def)
  with m ks show ?thesis by auto
qed

lemma candidate_in_pool:
  "api_keys s \<noteq> [] \<Longrightarrow> candidate s j \<in> set (api_keys s)"
  by (simp add: candidate_def)

lemma invariant_scanned: "invariant s \<Longrightarrow> scanned s s 0"
  by (simp add: invariant_def scanned_def)

lemma invariant_known:
  "invariant s \<Longrightarrow> \<forall>k \<in> set (api_keys s). map_of (key_usage_stats s) k \<noteq> None"
  by (auto simp: invariant_def map_of_eq_None_iff)

lemma selected_invariant:
  assumes "invariant s" and "selected s s' j"
  shows "invariant s'"
  using assms by (simp add: invariant_def selected_def)

lemma select_char:
  assumes inv: "invariant s"
  shows "\<exists>s' k j. get_next_available_key s clock = (s', Inr k) \<and> selected s s' j \<and>
          ((j < length (api_keys s) \<and> k = candidate s j
               \<and> is_usable s k (clock j)
               \<and> (\<forall>i<j. \<not> is_usable s (candidate s i) (clock i)))
           \<or> (j = length (api_keys s) \<and> least_errors_key s = Inr k
               \<and> (\<forall>i<length (api_keys s). \<not> is_usable s (candidate s i) (clock i))))"
proof -
  have ne: "api_keys s \<noteq> []" using inv by (simp add: invariant_def)
  note known = invariant_known[OF inv]
  obtain s' r where run: "scan_keys s clock 0 = (s', r)" by (cases "scan_keys s clock 0") auto
  from scan_keys_char[OF ne known invariant_scanned[OF inv] le0 run]
  show ?thesis
  proof
    assume "\<exists>j. 0 \<le> j \<and> j < length (api_keys s) \<and> r = Inr (Some (candidate s j))
              \<and> is_usable s (candidate s j) (clock j)
              \<and> (\<forall>i. 0 \<le> i \<and> i < j \<longrightarrow> \<not> is_usable s (candidate s i) (clock i))
              \<and> selected s s' j"
    then obtain j where j: "j < length (api_keys s)" "r = Inr (Some (candidate s j))"
      "is_usable s (candidate s j) (clock j)"
      "\<forall>i<j. \<not> is_usable s (candidate s i) (clock i)" "selected s s' j" by auto
    have "get_next_available_key s clock = (s', Inr (candidate s j))"
      using run j(2) by (simp add: get_next_available_key_def)
    with j show ?thesis by blast
  next
    assume rest: "r = Inr None
      \<and> (\<forall>i. 0 \<le> i \<and> i < length (api_keys s) \<longrightarrow> \<not> is_usable s (candidate s i) (clock i))
      \<and> scanned s s' (length (api_keys s))"
    then have sel: "selected s s' (length (api_keys s))" by (simp add: scanned_selected)
    have same: "least_errors_key s' = least_errors_key s"
      using sel by (intro least_errors_key_cong) (simp_all add: selected_def)
    have "api_keys s' \<noteq> []" using sel ne by (simp add: selected_def)
    from least_errors_key_char[OF ne known] obtain m where m: "least_errors_key s = Inr m" by blast
    have "get_next_available_key s clock = (s', Inr m)"
      using run rest same m by (simp add: get_next_available_key_def)
    with rest sel m show ?thesis by blast
  qed
qed

lemma index_of_nth: "distinct xs \<Longrightarrow> i < length xs \<Longrightarrow> index_of xs (xs ! i) = i"
proof (induction xs arbitrary: i)
  case Nil
  then show ?case by simp
next
  case (Cons x xs)
  then show ?case by (cases i) auto
qed

section \<open>Recording a failure: the cooldown policy\<close>

text \<open>
  Claim C4. For a credential that has its statistics and a failure recorded at time \<open>T\<close>,
  \<^verbatim>\<open>_handle_api_error\<close> returns normally, adds exactly one to the credential's error
  count, and by the class of the error: for insufficient credits it sets the cooldown expiry
  to \<open>T\<close> plus 30 minutes and \<^verbatim>\<open>credits_exhausted\<close> to true; for a rate limit it sets the
  expiry to \<open>T\<close> plus 60 seconds and \<^verbatim>\<open>rate_limited\<close> to true; for any other error it
  sets the expiry to \<open>T\<close> plus 30 seconds and sets neither flag (both keep their values).
  The flag that a class does not set keeps its value as well.
\<close>

theorem handle_api_error_effect:
  assumes "map_of (key_usage_stats s) key = Some st"
  shows "\<exists>s' st'. handle_api_error s key error T = (s', None)
           \<and> map_of (key_usage_stats s') key = Some st'
           \<and> errors st' = errors st + 1
           \<and> (case classify error of
                 InsufficientCredits \<Rightarrow>
                   map_of (key_cooldowns s') key = Some (T + timedelta_minutes 30)
                   \<and> credits_exhausted st' \<and> rate_limited st' = rate_limited st
               | RateLimited \<Rightarrow>
                   map_of (key_cooldowns s') key = Some (T + timedelta_seconds 60)
                   \<and> rate_limited st' \<and> credits_exhausted st' = credits_exhausted st
               | Other \<Rightarrow>
                   map_of (key_cooldowns s') key = Some (T + timedelta_seconds 30)
                   \<and> credits_exhausted st' = credits_exhausted st
                   \<and> rate_limited st' = rate_limited st)"
  using assms
  by (simp add: handle_api_error_def classify_def Let_def map_of_update_same)

theorem handle_api_error_effect_witness:
  "map_of (key_usage_stats one_key) ''sk-or-primary'' = Some fresh_stats
   \<and> classify (TransportError ''Error code: 429 - Rate limit exceeded'') = RateLimited
   \<and> (\<exists>s' st'. handle_api_error one_key ''sk-or-primary''
                   (TransportError ''Error code: 429 - Rate limit exceeded'') 5000000 = (s', None)
           \<and> map_of (key_usage_stats s') ''sk-or-primary'' = Some st'
           \<and> errors st' = 1
           \<and> map_of (key_cooldowns s') ''sk-or-primary'' = Some 65000000
           \<and> rate_limited st' \<and> \<not> credits_exhausted st')"
proof -
  let ?e = "TransportError ''Error code: 429 - Rate limit exceeded''"
  have h: "map_of (key_usage_stats one_key) ''sk-or-primary'' = Some fresh_stats"
    by (simp add: one_key_def manager_of_def)
  have c: "classify ?e = RateLimited"
    by (simp add: classify_def lower_def lower_char_def credit_signal_def rate_limit_signal_def)
  from handle_api_error_effect[OF h, of ?e 5000000]
  obtain s' st' where
    "handle_api_error one_key ''sk-or-primary'' ?e 5000000 = (s', None)"
    "map_of (key_usage_stats s') ''sk-or-primary'' = Some st'"
    "errors st' = 1"
    "map_of (key_cooldowns s') ''sk-or-primary'' = Some 65000000"
    "rate_limited st'" "\<not> credits_exhausted st'"
    by (auto simp: c fresh_stats_def timedelta_seconds_def)
  with h c show ?thesis by blast
qed

text \<open>
  Claim C10. The credit check comes first: for an error whose lowered text holds a credit
  signal and a rate-limit signal, \<^verbatim>\<open>_handle_api_error\<close> sets \<^verbatim>\<open>credits_exhausted\<close> to
  true with a cooldown of 30 minutes and leaves \<^verbatim>\<open>rate_limited\<close> as it was.
\<close>

theorem credit_check_first:
  assumes "map_of (key_usage_stats s) key = Some st"
    and "credit_signal (lower (exc_str error))"
    and "rate_limit_signal (lower (exc_str error))"
  shows "\<exists>s' st'. handle_api_error s key error T = (s', None)
           \<and> map_of (key_usage_stats s') key = Some st'
           \<and> credits_exhausted st'
           \<and> rate_limited st' = rate_limited st
           \<and> map_of (key_cooldowns s') key = Some (T + timedelta_minutes 30)"
  using assms
  by (simp add: handle_api_error_def Let_def map_of_update_same)

theorem credit_check_first_witness:
  "map_of (key_usage_stats one_key) ''sk-or-primary'' = Some fresh_stats
   \<and> credit_signal (lower ''429 Rate Limit: out of Credits'')
   \<and> rate_limit_signal (lower ''429 Rate Limit: out of Credits'')
   \<and> (\<exists>s' st'. handle_api_error one_key ''sk-or-primary''
                   (TransportError ''429 Rate Limit: out of Credits'') 0 = (s', None)
           \<and> map_of (key_usage_stats s') ''sk-or-primary'' = Some st'
           \<and> credits_exhausted st'
           \<and> \<not> rate_limited st'
           \<and> map_of (key_cooldowns s') ''sk-or-primary'' = Some 1800000000)"
proof -
  let ?e = "TransportError ''429 Rate Limit: out of Credits''"
  have h: "map_of (key_usage_stats one_key) ''sk-or-primary'' = Some fresh_stats"
    by (simp add: one_key_def manager_of_def)
  have c: "credit_signal (lower (exc_str ?e))"
    by (simp add: lower_def lower_char_def credit_signal_def)
  have r: "rate_limit_signal (lower (exc_str ?e))"
    by (simp add: lower_def lower_char_def rate_limit_signal_def)
  from credit_check_first[OF h c r, of 0]
  obtain s' st' where
    "handle_api_error one_key ''sk-or-primary'' ?e 0 = (s', None)"
    "map_of (key_usage_stats s') ''sk-or-primary'' = Some st'"
    "credits_exhausted st'" "\<not> rate_limited st'"
    "map_of (key_cooldowns s') ''sk-or-primary'' = Some 1800000000"
    by (auto simp: fresh_stats_def timedelta_minutes_def)
  with h c r show ?thesis by auto
qed

section \<open>Degrading a request\<close>

text \<open>
  Claim C5. For a request with a fixed original budget of output tokens,
  \<^verbatim>\<open>_maybe_adjust_request\<close> leaves the budget unchanged at attempt 0, makes it the smaller
  of the original and 2048 at attempt 1, of the original and 1024 at attempt 2, of the
  original and 512 at every attempt from 3 on; a request without a budget gets none; and for
  attempts \<open>a \<le> b\<close> the budget at \<open>b\<close> is at most the budget at \<open>a\<close>, which is at most
  the original.
\<close>

theorem max_tokens_degrade:
  "max_tokens (maybe_adjust_request s kwargs 0) = max_tokens kwargs
   \<and> max_tokens (maybe_adjust_request s kwargs 1) = map_option (\<lambda>n. min n 2048) (max_tokens kwargs)
   \<and> max_tokens (maybe_adjust_request s kwargs 2) = map_option (\<lambda>n. min n 1024) (max_tokens kwargs)
   \<and> (3 \<le> a \<longrightarrow>
        max_tokens (maybe_adjust_request s kwargs a) = map_option (\<lambda>n. min n 512) (max_tokens kwargs))
   \<and> (max_tokens kwargs = None \<longrightarrow> max_tokens (maybe_adjust_request s kwargs a) = None)
   \<and> (\<forall>n. max_tokens kwargs = Some n \<longrightarrow> a \<le> b \<longrightarrow>
        (\<exists>x y. max_tokens (maybe_adjust_request s kwargs a) = Some x
             \<and> max_tokens (maybe_adjust_request s kwargs b) = Some y
             \<and> y \<le> x \<and> x \<le> n))"
  by (cases "max_tokens kwargs") (auto simp: maybe_adjust_request_def adjust_max_tokens_def)

theorem max_tokens_degrade_witness:
  "max_tokens (maybe_adjust_request one_key
      \<lparr>model = Some ''custom/model'', max_tokens = Some 4096, payload = ()\<rparr> 0) = Some 4096
   \<and> max_tokens (maybe_adjust_request one_key
      \<lparr>model = Some ''custom/model'', max_tokens = Some 4096, payload = ()\<rparr> 1) = Some 2048
   \<and> max_tokens (maybe_adjust_request one_key
      \<lparr>model = Some ''custom/model'', max_tokens = Some 4096, payload = ()\<rparr> 2) = Some 1024
   \<and> (3::int) \<le> 7
   \<and> max_tokens (maybe_adjust_request one_key
      \<lparr>model = Some ''custom/model'', max_tokens = Some 4096, payload = ()\<rparr> 7) = Some 512
   \<and> (2::int) \<le> 7 \<and> (512::int) \<le> 1024 \<and> (1024::int) \<le> 4096"
  using max_tokens_degrade[of one_key
      "\<lparr>model = Some ''custom/model'', max_tokens = Some 4096, payload = ()\<rparr>" 7 7]
  by simp

text \<open>
  Claim C6, as the code has it. The claim says that the chain index of the degraded model
  never decreases as the attempt number grows. The code passes the original request to every
  attempt and steps one rung only while \<^verbatim>\<open>attempt <= 2\<close>, so from attempt 3 on the model is
  the requested one again: the index at attempt 3 is below the index at attempt 2
  (\<open>model_degrade_counterexample\<close>). What holds: for a requested model in the chain, the
  degraded model is in the chain, one rung down when the attempt is at most 2 and a rung is
  left, and the requested model otherwise, so never more than one rung from the request; and
  the index does not decrease between attempts \<open>a < b\<close> that are both at most 2 (all the
  attempts \<^verbatim>\<open>chat_completion\<close> makes) or both above 2.
\<close>

theorem model_degrade_steps:
  assumes "distinct (model_fallback_chain s)"
    and "model kwargs = Some m"
    and "m \<in> set (model_fallback_chain s)"
  shows "(\<exists>m'. model (maybe_adjust_request s kwargs a) = Some m' \<and> m' \<in> set (model_fallback_chain s))
       \<and> degraded_index s kwargs a =
           (if a \<le> 2 \<and> index_of (model_fallback_chain s) m + 1 < length (model_fallback_chain s)
            then index_of (model_fallback_chain s) m + 1
            else index_of (model_fallback_chain s) m)
       \<and> index_of (model_fallback_chain s) m \<le> degraded_index s kwargs a
       \<and> degraded_index s kwargs a \<le> index_of (model_fallback_chain s) m + 1
       \<and> (a < b \<and> (b \<le> 2 \<or> 2 < a) \<longrightarrow> degraded_index s kwargs a \<le> degraded_index s kwargs b)"
  using assms
  by (auto simp: maybe_adjust_request_def adjust_model_def degraded_index_def Let_def index_of_nth)

theorem model_degrade_steps_witness:
  "distinct (model_fallback_chain one_key)
   \<and> ''qwen/qwen-2.5-32b-instruct'' \<in> set (model_fallback_chain one_key)
   \<and> model (maybe_adjust_request one_key
        \<lparr>model = Some ''qwen/qwen-2.5-32b-instruct'', max_tokens = None, payload = ()\<rparr> 1)
       = Some ''meta-llama/llama-3.1-8b-instruct:free''
   \<and> degraded_index one_key
        \<lparr>model = Some ''qwen/qwen-2.5-32b-instruct'', max_tokens = None, payload = ()\<rparr> 1 = 2
   \<and> degraded_index one_key
        \<lparr>model = Some ''qwen/qwen-2.5-32b-instruct'', max_tokens = None, payload = ()\<rparr> 2 = 2
   \<and> (1::int) < 2 \<and> (2::int) \<le> 2"
proof -
  let ?kw = "\<lparr>model = Some ''qwen/qwen-2.5-32b-instruct'', max_tokens = None, payload = ()\<rparr>"
  have d: "distinct (model_fallback_chain one_key)"
    by (simp add: one_key_def manager_of_def default_chain_def)
  have m: "model ?kw = Some ''qwen/qwen-2.5-32b-instruct''" by simp
  have i: "''qwen/qwen-2.5-32b-instruct'' \<in> set (model_fallback_chain one_key)"
    by (simp add: one_key_def manager_of_def default_chain_def)
  have v: "model (maybe_adjust_request one_key ?kw 1) = Some ''meta-llama/llama-3.1-8b-instruct:free''"
    by (simp add: maybe_adjust_request_def adjust_model_def one_key_def manager_of_def
        default_chain_def)
  have x: "index_of (model_fallback_chain one_key) ''qwen/qwen-2.5-32b-instruct'' = 1"
    by (simp add: one_key_def manager_of_def default_chain_def)
  have l: "length (model_fallback_chain one_key) = 4"
    by (simp add: one_key_def manager_of_def default_chain_def)
  from model_degrade_steps[OF d m i, of 1 2] model_degrade_steps[OF d m i, of 2 3]
  show ?thesis using d i v by (simp add: x l)
qed

theorem model_degrade_counterexample:
  "model \<lparr>model = Some ''qwen/qwen-2.5-72b-instruct'', max_tokens = None, payload = ()\<rparr>
     = Some (model_fallback_chain one_key ! 0)
   \<and> (2::int) < 3
   \<and> degraded_index one_key
        \<lparr>model = Some ''qwen/qwen-2.5-72b-instruct'', max_tokens = None, payload = ()\<rparr> 2 = 1
   \<and> degraded_index one_key
        \<lparr>model = Some ''qwen/qwen-2.5-72b-instruct'', max_tokens = None, payload = ()\<rparr> 3 = 0"
  by (simp add: degraded_index_def maybe_adjust_request_def adjust_model_def one_key_def
      manager_of_def default_chain_def)

section \<open>Key selection and the retry loop\<close>

lemma candidate_cover:
  assumes "current_key_index s < length (api_keys s)" and "m < length (api_keys s)"
  shows "\<exists>i<length (api_keys s). candidate s i = api_keys s ! m"
proof -
  let ?n = "length (api_keys s)"
  let ?i = "(m + ?n - current_key_index s) mod ?n"
  have "(current_key_index s + ?i) mod ?n = (current_key_index s + (m + ?n - current_key_index s)) mod ?n"
    by (simp add: mod_add_right_eq)
  also have "\<dots> = (m + ?n) mod ?n" using assms(1) by simp
  also have "\<dots> = m" using assms(2) by simp
  finally have "candidate s ?i = api_keys s ! m" by (simp add: candidate_def)
  moreover have "0 < ?n" using assms(2) by (cases "api_keys s") simp_all
  then have "?i < ?n" by (rule mod_less_divisor)
  ultimately show ?thesis by blast
qed

lemma select_member:
  assumes "invariant s"
  shows "\<exists>s' k j. get_next_available_key s clock = (s', Inr k) \<and> selected s s' j
           \<and> k \<in> set (api_keys s)
           \<and> ((\<forall>i<length (api_keys s). \<not> is_usable s (candidate s i) (clock i)) \<longrightarrow>
                least_errors_key s = Inr k)"
proof -
  have ne: "api_keys s \<noteq> []" using assms by (simp add: invariant_def)
  from select_char[OF assms, of clock] obtain s' k j where
    run: "get_next_available_key s clock = (s', Inr k)" and sel: "selected s s' j"
    and alt: "(j < length (api_keys s) \<and> k = candidate s j \<and> is_usable s k (clock j)
                \<and> (\<forall>i<j. \<not> is_usable s (candidate s i) (clock i)))
              \<or> (j = length (api_keys s) \<and> least_errors_key s = Inr k
                \<and> (\<forall>i<length (api_keys s). \<not> is_usable s (candidate s i) (clock i)))"
    by blast
  from alt show ?thesis
  proof
    assume a: "j < length (api_keys s) \<and> k = candidate s j \<and> is_usable s k (clock j)
                \<and> (\<forall>i<j. \<not> is_usable s (candidate s i) (clock i))"
    then have "k \<in> set (api_keys s)" using candidate_in_pool[OF ne] by simp
    moreover have "\<not> (\<forall>i<length (api_keys s). \<not> is_usable s (candidate s i) (clock i))"
      using a by blast
    ultimately show ?thesis using run sel by blast
  next
    assume b: "j = length (api_keys s) \<and> least_errors_key s = Inr k
                \<and> (\<forall>i<length (api_keys s). \<not> is_usable s (candidate s i) (clock i))"
    from least_errors_key_char[OF ne invariant_known[OF assms]] b
    have "k \<in> set (api_keys s)" by auto
    with b run sel show ?thesis by blast
  qed
qed

text \<open>
  Claim C2. In every state of the manager (the pool not empty), \<^verbatim>\<open>_get_next_available_key\<close>
  does not raise and returns a key of the pool, whatever the clock reads; and when no
  candidate qualifies in the full scan (the key examined in iteration \<open>i\<close> is not usable at
  the reading of iteration \<open>i\<close>, for every \<open>i\<close> below the pool size), the key returned is
  the one with the least error count, the first such in pool order: every key before it
  in the pool has strictly more errors and every key after it has at least as many.
\<close>

theorem select_key_total:
  assumes "invariant s"
  shows "\<exists>s' k. get_next_available_key s clock = (s', Inr k)
           \<and> k \<in> set (api_keys s)
           \<and> invariant s' \<and> api_keys s' = api_keys s
           \<and> ((\<forall>i<length (api_keys s). \<not> is_usable s (candidate s i) (clock i)) \<longrightarrow>
                (\<exists>pre post. api_keys s = pre @ k # post
                   \<and> (\<forall>k' \<in> set pre. error_count s k < error_count s k')
                   \<and> (\<forall>k' \<in> set post. error_count s k \<le> error_count s k')))"
proof -
  have ne: "api_keys s \<noteq> []" using assms by (simp add: invariant_def)
  from select_member[OF assms, of clock] obtain s' k j where
    run: "get_next_available_key s clock = (s', Inr k)" and sel: "selected s s' j"
    and mem: "k \<in> set (api_keys s)"
    and fb: "(\<forall>i<length (api_keys s). \<not> is_usable s (candidate s i) (clock i)) \<longrightarrow>
                least_errors_key s = Inr k"
    by blast
  have inv': "invariant s'" by (rule selected_invariant[OF assms sel])
  have keys: "api_keys s' = api_keys s" using sel by (simp add: selected_def)
  have "\<exists>pre post. api_keys s = pre @ k # post
          \<and> (\<forall>k' \<in> set pre. error_count s k < error_count s k')
          \<and> (\<forall>k' \<in> set post. error_count s k \<le> error_count s k')"
    if "\<forall>i<length (api_keys s). \<not> is_usable s (candidate s i) (clock i)"
    using least_errors_key_char[OF ne invariant_known[OF assms]] fb that by auto
  with run mem inv' keys show ?thesis by blast
qed

lemma both_cooling_invariant: "invariant both_cooling"
  by (simp add: invariant_def both_cooling_def manager_of_def)

lemma both_cooling_select:
  "get_next_available_key both_cooling (steady 45000000) = (both_cooling, Inr ''sk-or-backup'')"
  by (simp add: get_next_available_key_def scan_keys.simps both_cooling_def manager_of_def
      rotate_to_next_key_def least_errors_key_def Let_def steady_def)

theorem select_key_total_witness:
  "invariant both_cooling
   \<and> \<not> is_usable both_cooling (candidate both_cooling 0) 45000000
   \<and> \<not> is_usable both_cooling (candidate both_cooling 1) 45000000
   \<and> get_next_available_key both_cooling (steady 45000000) = (both_cooling, Inr ''sk-or-backup'')
   \<and> ''sk-or-backup'' \<in> set (api_keys both_cooling)
   \<and> api_keys both_cooling = [''sk-or-primary''] @ ''sk-or-backup'' # []
   \<and> error_count both_cooling ''sk-or-backup'' < error_count both_cooling ''sk-or-primary''"
proof -
  have u: "\<not> is_usable both_cooling (candidate both_cooling 0) 45000000"
    "\<not> is_usable both_cooling (candidate both_cooling 1) 45000000"
    by (simp_all add: is_usable_def candidate_def both_cooling_def manager_of_def)
  have e: "error_count both_cooling ''sk-or-backup'' < error_count both_cooling ''sk-or-primary''"
    by (simp add: error_count_def both_cooling_def manager_of_def)
  have k: "api_keys both_cooling = [''sk-or-primary''] @ ''sk-or-backup'' # []"
    by (simp add: both_cooling_def manager_of_def)
  from select_key_total[OF both_cooling_invariant, of "steady 45000000"]
  have "''sk-or-backup'' \<in> set (api_keys both_cooling)"
    by (auto simp: both_cooling_select)
  with u e k both_cooling_invariant both_cooling_select show ?thesis by simp
qed

text \<open>
  Claim C3, as the code has it. The claim says that a credential \<open>K\<close> whose cooldown entry
  expires at \<open>E\<close> is never returned at a time before \<open>E\<close>. The fallback of
  \<^verbatim>\<open>_get_next_available_key\<close> to the key with the fewest errors ignores cooldowns, so a
  pool whose only key is cooling down gets that key: after three failed dispatches on the
  only key (cooldown until second 36.9), the selection at second 10 returns it
  (\<open>cooldown_counterexample\<close>). What
  holds: while every reading of the clock is before \<open>E\<close>, the selection returns \<open>K\<close>
  only through that fallback, that is, never when some candidate qualifies in the scan; and
  once every reading is at or after \<open>E\<close>, with both flags clear on a \<open>K\<close> of the pool,
  the selection returns a key that is usable at its reading, and returns \<open>K\<close> itself when
  the rotation pointer is at \<open>K\<close>.
\<close>

theorem cooldown_respected:
  assumes "invariant s"
    and "map_of (key_cooldowns s) K = Some E"
    and "get_next_available_key s clock = (s', r)"
  shows "((\<forall>i<length (api_keys s). clock i < E)
            \<and> (\<exists>i<length (api_keys s). is_usable s (candidate s i) (clock i))
          \<longrightarrow> r \<noteq> Inr K)
       \<and> ((\<forall>i<length (api_keys s). E \<le> clock i) \<and> K \<in> set (api_keys s) \<and> \<not> flagged s K
          \<longrightarrow> (\<exists>k j. r = Inr k \<and> j < length (api_keys s) \<and> k = candidate s j
                    \<and> is_usable s k (clock j))
              \<and> (api_keys s ! current_key_index s = K \<longrightarrow> r = Inr K))"
proof -
  let ?n = "length (api_keys s)"
  from select_char[OF assms(1), of clock] assms(3) obtain k j where
    r: "r = Inr k"
    and alt: "(j < ?n \<and> k = candidate s j \<and> is_usable s k (clock j)
                \<and> (\<forall>i<j. \<not> is_usable s (candidate s i) (clock i)))
              \<or> (j = ?n \<and> least_errors_key s = Inr k
                \<and> (\<forall>i<?n. \<not> is_usable s (candidate s i) (clock i)))"
    by auto
  have first: "r \<noteq> Inr K"
    if early: "\<forall>i<?n. clock i < E" and some: "\<exists>i<?n. is_usable s (candidate s i) (clock i)"
  proof -
    from alt some have a: "j < ?n" "k = candidate s j" "is_usable s k (clock j)" by auto
    have "\<not> is_usable s K (clock j)"
      using assms(2) early a(1) by (auto simp: is_usable_def split: option.splits)
    with a(3) r show ?thesis by auto
  qed
  have second: "(\<exists>k j. r = Inr k \<and> j < ?n \<and> k = candidate s j \<and> is_usable s k (clock j))
                \<and> (api_keys s ! current_key_index s = K \<longrightarrow> r = Inr K)"
    if late: "\<forall>i<?n. E \<le> clock i" and mem: "K \<in> set (api_keys s)" and nf: "\<not> flagged s K"
  proof -
    have idx: "current_key_index s < ?n" using assms(1) by (simp add: invariant_def)
    from invariant_known[OF assms(1)] mem obtain st where st: "map_of (key_usage_stats s) K = Some st"
      by auto
    have us: "is_usable s K (clock i)" if "i < ?n" for i
      using st nf assms(2) late that by (auto simp: is_usable_def flagged_def)
    from mem obtain m where m: "m < ?n" "api_keys s ! m = K" by (auto simp: in_set_conv_nth)
    from candidate_cover[OF idx m(1)] m(2) obtain i where i: "i < ?n" "candidate s i = K" by auto
    then have "is_usable s (candidate s i) (clock i)" using us by simp
    with alt i(1) have a: "j < ?n" "k = candidate s j" "is_usable s k (clock j)"
      "\<forall>i<j. \<not> is_usable s (candidate s i) (clock i)" by auto
    have "r = Inr K" if p: "api_keys s ! current_key_index s = K"
    proof -
      have c0: "candidate s 0 = K" using p idx by (simp add: candidate_def)
      have "0 < ?n" using idx by (cases "api_keys s") simp_all
      then have "is_usable s (candidate s 0) (clock 0)" using us c0 by simp
      then have "j = 0" using a(4) by (cases j) auto
      then show ?thesis using r a(2) c0 by simp
    qed
    with r a show ?thesis by blast
  qed
  from first second show ?thesis by blast
qed

lemma primary_cooling_invariant: "invariant primary_cooling"
  by (simp add: invariant_def primary_cooling_def manager_of_def)

theorem cooldown_respected_witness:
  "invariant primary_cooling
   \<and> map_of (key_cooldowns primary_cooling) ''sk-or-primary'' = Some 50000000
   \<and> (30000000::int) < 50000000
   \<and> is_usable primary_cooling (candidate primary_cooling 1) 30000000
   \<and> snd (get_next_available_key primary_cooling (steady 30000000)) = Inr ''sk-or-backup''
   \<and> snd (get_next_available_key primary_cooling (steady 30000000)) \<noteq> Inr ''sk-or-primary''
   \<and> (50000000::int) \<le> 50000000
   \<and> ''sk-or-primary'' \<in> set (api_keys primary_cooling)
   \<and> \<not> flagged primary_cooling ''sk-or-primary''
   \<and> api_keys primary_cooling ! current_key_index primary_cooling = ''sk-or-primary''
   \<and> snd (get_next_available_key primary_cooling (steady 50000000)) = Inr ''sk-or-primary''"
proof -
  let ?early = "steady 30000000"
  let ?late = "steady 50000000"
  have c: "map_of (key_cooldowns primary_cooling) ''sk-or-primary'' = Some 50000000"
    by (simp add: primary_cooling_def manager_of_def)
  have n: "length (api_keys primary_cooling) = 2"
    by (simp add: primary_cooling_def manager_of_def)
  have u: "is_usable primary_cooling (candidate primary_cooling 1) 30000000"
    by (simp add: is_usable_def candidate_def primary_cooling_def manager_of_def fresh_stats_def)
  have m: "''sk-or-primary'' \<in> set (api_keys primary_cooling)"
    "\<not> flagged primary_cooling ''sk-or-primary''"
    "api_keys primary_cooling ! current_key_index primary_cooling = ''sk-or-primary''"
    by (simp_all add: flagged_def primary_cooling_def manager_of_def)
  have e: "snd (get_next_available_key primary_cooling ?early) = Inr ''sk-or-backup''"
    by (simp add: get_next_available_key_def scan_keys.simps primary_cooling_def manager_of_def
        rotate_to_next_key_def fresh_stats_def Let_def steady_def)
  have "snd (get_next_available_key primary_cooling ?early) \<noteq> Inr ''sk-or-primary''"
    using cooldown_respected[OF primary_cooling_invariant c surjective_pairing, of ?early] u
    by (auto simp: n steady_def)
  moreover have "snd (get_next_available_key primary_cooling ?late) = Inr ''sk-or-primary''"
    using cooldown_respected[OF primary_cooling_invariant c surjective_pairing, of ?late] m
    by (auto simp: n steady_def)
  ultimately show ?thesis using primary_cooling_invariant c u m e by simp
qed

theorem cooldown_counterexample:
  "invariant after_failures
   \<and> map_of (key_cooldowns after_failures) ''sk-or-primary'' = Some 36900000
   \<and> (10000000::int) < 36900000
   \<and> snd (get_next_available_key after_failures (steady 10000000)) = Inr ''sk-or-primary''"
  by (simp add: after_failures_eq invariant_def get_next_available_key_def scan_keys.simps
      one_key_def manager_of_def rotate_to_next_key_def least_errors_key_def Let_def steady_def)

lemma same_setup_refl: "same_setup s s"
  by (simp add: same_setup_def)

lemma same_setup_trans: "same_setup s s1 \<Longrightarrow> same_setup s1 s2 \<Longrightarrow> same_setup s s2"
  by (simp add: same_setup_def)

lemma stats_update_invariant:
  "invariant s \<Longrightarrow> invariant (s\<lparr>key_usage_stats := AList.update k v (key_usage_stats s)\<rparr>)"
  by (auto simp: invariant_def dom_update distinct_update)

lemma rotate_invariant:
  "invariant s \<Longrightarrow>
   \<exists>s'. rotate_to_next_key s = Inr s' \<and> invariant s' \<and> same_setup s s'
        \<and> key_usage_stats s' = key_usage_stats s \<and> key_cooldowns s' = key_cooldowns s"
  by (simp add: rotate_to_next_key_def invariant_def same_setup_def)

lemma handle_api_error_invariant:
  assumes "invariant s" and "map_of (key_usage_stats s) k = Some st"
  shows "\<exists>s'. handle_api_error s k e t = (s', None) \<and> invariant s' \<and> same_setup s s'"
  using assms
  by (auto simp: handle_api_error_def Let_def invariant_def same_setup_def dom_update
      distinct_update)

lemma try_attempt_char:
  assumes inv: "invariant s"
  shows "\<exists>s1 k st. try_attempt w kwargs a s ak =
            (s1, Some k, [(a, create_client s k, maybe_adjust_request s kwargs (int a))],
             dispatch w a (create_client s k) (maybe_adjust_request s kwargs (int a)))
          \<and> k \<in> set (api_keys s) \<and> invariant s1 \<and> same_setup s s1
          \<and> map_of (key_usage_stats s) k = Some st
          \<and> map_of (key_usage_stats s1) k = Some (recorded_use st (use_clock w a))"
proof -
  from select_member[OF inv, of "select_clock w a"]
  obtain s0 k j where sel: "get_next_available_key s (select_clock w a) = (s0, Inr k)"
    and mem: "k \<in> set (api_keys s)" and fr: "selected s s0 j"
    by blast
  have inv0: "invariant s0" by (rule selected_invariant[OF inv fr])
  from invariant_known[OF inv] mem obtain st where st: "map_of (key_usage_stats s) k = Some st"
    by auto
  have st0: "map_of (key_usage_stats s0) k = Some st" using st fr by (simp add: selected_def)
  have cl: "create_client s0 k = create_client s k"
    using fr by (simp add: create_client_def selected_def)
  have adj: "maybe_adjust_request s0 kwargs (int a) = maybe_adjust_request s kwargs (int a)"
    using fr by (simp add: maybe_adjust_request_def selected_def)
  have set0: "same_setup s s0" using fr by (simp add: same_setup_def selected_def)
  let ?s2 = "s0\<lparr>key_usage_stats :=
                 AList.update k (recorded_use st (use_clock w a)) (key_usage_stats s0)\<rparr>"
  have inv2: "invariant ?s2" by (rule stats_update_invariant[OF inv0])
  have set2: "same_setup s ?s2" using set0 by (simp add: same_setup_def)
  have look2: "map_of (key_usage_stats ?s2) k = Some (recorded_use st (use_clock w a))"
    by (simp add: map_of_update_same)
  from rotate_invariant[OF inv2] obtain s3 where rot: "rotate_to_next_key ?s2 = Inr s3"
    and inv3: "invariant s3" and set3: "same_setup ?s2 s3"
    and st3: "key_usage_stats s3 = key_usage_stats ?s2" by blast
  show ?thesis
  proof (cases "dispatch w a (create_client s k) (maybe_adjust_request s kwargs (int a))")
    case (Inl e)
    then have "try_attempt w kwargs a s ak =
        (?s2, Some k, [(a, create_client s k, maybe_adjust_request s kwargs (int a))], Inl e)"
      using sel st0 cl adj by (simp add: try_attempt_def recorded_use_def)
    with Inl mem inv2 set2 st look2 show ?thesis by metis
  next
    case (Inr x)
    then have "try_attempt w kwargs a s ak =
        (s3, Some k, [(a, create_client s k, maybe_adjust_request s kwargs (int a))], Inr x)"
      using sel st0 cl adj rot by (simp add: try_attempt_def recorded_use_def)
    moreover have "map_of (key_usage_stats s3) k = Some (recorded_use st (use_clock w a))"
      using st3 look2 by simp
    moreover have "same_setup s s3" by (rule same_setup_trans[OF set2 set3])
    ultimately show ?thesis using Inr mem inv3 st by metis
  qed
qed

lemma chat_loop_char:
  "invariant s \<Longrightarrow> chat_loop w kwargs attempts s ak le calls = (s', calls', r) \<Longrightarrow>
   invariant s' \<and> same_setup s s'
   \<and> (\<exists>made. calls' = calls @ made \<and> loop_outcome w kwargs s attempts le made r)"
proof (induction attempts arbitrary: s ak le calls)
  case Nil
  then have "s' = s" "calls' = calls" "r = (case le of None \<Rightarrow> Inl TypeError | Some e \<Rightarrow> Inl e)"
    by simp_all
  moreover have "loop_outcome w kwargs s [] le [] (case le of None \<Rightarrow> Inl TypeError | Some e \<Rightarrow> Inl e)"
    by (simp add: loop_outcome_def split: option.splits)
  ultimately show ?case using Nil.prems(1) same_setup_refl by auto
next
  case (Cons a rest)
  let ?cl = "\<lambda>k. create_client s k"
  let ?q = "maybe_adjust_request s kwargs (int a)"
  from try_attempt_char[OF Cons.prems(1), of w kwargs a ak] obtain s1 k st where
    t: "try_attempt w kwargs a s ak = (s1, Some k, [(a, ?cl k, ?q)], dispatch w a (?cl k) ?q)"
    and mem: "k \<in> set (api_keys s)" and inv1: "invariant s1" and set1: "same_setup s s1"
    and st1: "map_of (key_usage_stats s1) k = Some (recorded_use st (use_clock w a))" by blast
  let ?c = "(a, ?cl k, ?q)"
  have rc: "run_call w ?c = dispatch w a (?cl k) ?q" by (simp add: run_call_def)
  have wf_c: "\<exists>k \<in> set (api_keys s). snd ?c = (create_client s k, maybe_adjust_request s kwargs (int (fst ?c)))"
    using mem by auto
  show ?case
  proof (cases "dispatch w a (?cl k) ?q")
    case (Inr x)
    then have "s' = s1" "calls' = calls @ [?c]" "r = Inr x"
      using Cons.prems(2) t by simp_all
    moreover have "loop_outcome w kwargs s (a # rest) le [?c] (Inr x)"
      using rc Inr wf_c by (simp add: loop_outcome_def)
    ultimately show ?thesis using inv1 set1 by auto
  next
    case (Inl e)
    from handle_api_error_invariant[OF inv1 st1, of e "error_clock w a"] obtain s2 where
      h: "handle_api_error s1 k e (error_clock w a) = (s2, None)" and inv2: "invariant s2"
      and set2: "same_setup s1 s2" by blast
    have run: "chat_loop w kwargs rest s2 (Some k) (Some e) (calls @ [?c]) = (s', calls', r)"
      using Cons.prems(2) t Inl h by simp
    from Cons.IH[OF inv2 run] obtain made where
      inv': "invariant s'" and set': "same_setup s2 s'"
      and calls': "calls' = (calls @ [?c]) @ made"
      and out: "loop_outcome w kwargs s2 rest (Some e) made r" by blast
    have cfg: "api_keys s2 = api_keys s" "create_client s2 = create_client s"
      "maybe_adjust_request s2 kwargs = maybe_adjust_request s kwargs"
      using set1 set2
      by (auto simp: same_setup_def create_client_def maybe_adjust_request_def fun_eq_iff)
    have "loop_outcome w kwargs s (a # rest) le (?c # made) r"
    proof (cases made)
      case Nil
      then show ?thesis
        using out rc Inl wf_c
        by (auto simp: loop_outcome_def split: sum.splits)
    next
      case (Cons c made')
      then have bl: "butlast (?c # made) = ?c # butlast made" and la: "last (?c # made) = last made"
        by simp_all
      have "\<forall>c \<in> set (butlast (?c # made)). isl (run_call w c)"
        using out rc Inl unfolding bl by (simp add: loop_outcome_def)
      moreover have "\<forall>c \<in> set (?c # made). \<exists>k \<in> set (api_keys s).
           snd c = (create_client s k, maybe_adjust_request s kwargs (int (fst c)))"
        using out wf_c cfg by (simp add: loop_outcome_def)
      moreover have "map fst (?c # made) = take (length (?c # made)) (a # rest)"
        using out by (simp add: loop_outcome_def)
      moreover have "(case r of
           Inr x \<Rightarrow> ?c # made \<noteq> [] \<and> run_call w (last (?c # made)) = Inr x
         | Inl e \<Rightarrow> length (?c # made) = length (a # rest)
                    \<and> (if ?c # made = [] then Some e = (case le of None \<Rightarrow> Some TypeError | Some e' \<Rightarrow> Some e')
                        else run_call w (last (?c # made)) = Inl e))"
        using out Cons unfolding la by (auto simp: loop_outcome_def split: sum.splits)
      ultimately show ?thesis unfolding loop_outcome_def by blast
    qed
    moreover have "same_setup s s'"
      using set1 set2 set' by (blast intro: same_setup_trans)
    ultimately show ?thesis using inv' calls' by auto
  qed
qed

section \<open>The retry loop\<close>

text \<open>
  Claim C1. For every request in every state of the manager, \<^verbatim>\<open>chat_completion\<close> makes
  at least one and at most three dispatches, numbered from 0, and raises if and only if it
  made three dispatches and all of them failed; the error it raises is the error of the last
  dispatch; a dispatch that succeeds is the last one and its result is what is returned. With
  a pool of exactly one key whose every dispatch fails, it makes exactly three dispatches and
  raises.
\<close>

theorem chat_completion_retries:
  assumes "invariant s"
    and "chat_completion w kwargs s = (s', calls, r)"
  shows "calls \<noteq> [] \<and> length calls \<le> 3 \<and> map fst calls = [0 ..< length calls]
       \<and> (isl r \<longleftrightarrow> length calls = 3 \<and> (\<forall>c \<in> set calls. isl (run_call w c)))
       \<and> (\<forall>e. r = Inl e \<longrightarrow> run_call w (last calls) = Inl e)
       \<and> (\<forall>c \<in> set calls. \<forall>x. run_call w c = Inr x \<longrightarrow> r = Inr x)
       \<and> (\<forall>K. api_keys s = [K] \<and> (\<forall>n q. isl (dispatch w n (create_client s K) q)) \<longrightarrow>
             length calls = 3 \<and> isl r)"
proof -
  have three: "[0 ..< max_retries s] = [0, 1, 2]"
    using assms(1) by (simp add: invariant_def upt_rec)
  from chat_loop_char[OF assms(1), of w kwargs "[0, 1, 2]" None None "[]" s' calls r] assms(2)
  have out: "loop_outcome w kwargs s [0, 1, 2] None calls r"
    by (simp add: chat_completion_def three)
  then have fst_calls: "map fst calls = take (length calls) [0, 1, 2]"
    and keys: "\<forall>c \<in> set calls. \<exists>k \<in> set (api_keys s).
           snd c = (create_client s k, maybe_adjust_request s kwargs (int (fst c)))"
    and bl: "\<forall>c \<in> set (butlast calls). isl (run_call w c)"
    by (simp_all add: loop_outcome_def)
  have len: "length calls \<le> 3"
    using arg_cong[OF fst_calls, of length] by simp
  have ne: "calls \<noteq> []"
    using out by (auto simp: loop_outcome_def split: sum.splits)
  have idx: "map fst calls = [0 ..< length calls]"
  proof -
    have "take n [0, 1, 2::nat] = [0 ..< n]" if "n \<le> 3" for n
    proof -
      from that consider "n = 0" | "n = 1" | "n = 2" | "n = 3" by linarith
      then show ?thesis by cases (simp_all add: upt_rec)
    qed
    from this[OF len] have "take (length calls) [0, 1, 2::nat] = [0 ..< length calls]" .
    with fst_calls show ?thesis by simp
  qed
  have split_calls: "set calls = set (butlast calls) \<union> {last calls}"
  proof -
    have "set calls = set (butlast calls @ [last calls])" using ne by simp
    then show ?thesis by (simp only: set_append list.set Un_insert_right sup_bot.right_neutral)
  qed
  have inl: "length calls = 3 \<and> run_call w (last calls) = Inl e" if "r = Inl e" for e
    using out that ne by (auto simp: loop_outcome_def)
  have inr: "run_call w (last calls) = Inr x" if "r = Inr x" for x
    using out that by (auto simp: loop_outcome_def)
  have iff: "isl r \<longleftrightarrow> length calls = 3 \<and> (\<forall>c \<in> set calls. isl (run_call w c))"
  proof (cases r)
    case (Inl e)
    then show ?thesis using inl[OF Inl] bl split_calls by auto
  next
    case (Inr x)
    then have "\<not> isl (run_call w (last calls))" using inr by simp
    moreover have "last calls \<in> set calls" using ne by simp
    ultimately show ?thesis using Inr by auto
  qed
  have succ: "r = Inr x" if c: "c \<in> set calls" and x: "run_call w c = Inr x" for c x
  proof -
    have "c \<notin> set (butlast calls)" using bl x by auto
    then have l: "c = last calls" using c split_calls by auto
    show ?thesis
    proof (cases r)
      case (Inl e)
      then show ?thesis using inl[OF Inl] l x by simp
    next
      case (Inr y)
      then show ?thesis using inr[OF Inr] l x by simp
    qed
  qed
  have single: "length calls = 3 \<and> isl r"
    if k: "api_keys s = [K]" and f: "\<forall>n q. isl (dispatch w n (create_client s K) q)" for K
  proof -
    have "\<forall>c \<in> set calls. isl (run_call w c)"
    proof
      fix c assume "c \<in> set calls"
      with keys k have "snd c = (create_client s K, maybe_adjust_request s kwargs (int (fst c)))"
        by auto
      then have "run_call w c = dispatch w (fst c) (create_client s K)
                   (maybe_adjust_request s kwargs (int (fst c)))"
        by (cases c) (simp add: run_call_def)
      then show "isl (run_call w c)" using f by simp
    qed
    then have "isl (run_call w (last calls))" using ne by simp
    then have "isl r" using inr by (cases r) auto
    then show ?thesis using iff by simp
  qed
  have e: "\<forall>e. r = Inl e \<longrightarrow> run_call w (last calls) = Inl e" using inl by blast
  have s: "\<forall>c \<in> set calls. \<forall>x. run_call w c = Inr x \<longrightarrow> r = Inr x" using succ by blast
  have k: "\<forall>K. api_keys s = [K] \<and> (\<forall>n q. isl (dispatch w n (create_client s K) q)) \<longrightarrow>
             length calls = 3 \<and> isl r" using single by blast
  show ?thesis by (intro conjI ne len idx iff e s k)
qed

theorem chat_completion_retries_witness:
  "invariant one_key
   \<and> api_keys one_key = [''sk-or-primary'']
   \<and> (\<forall>n q. isl (dispatch failing_world n (create_client one_key ''sk-or-primary'') q))
   \<and> length (fst (snd (chat_completion failing_world ask one_key))) = 3
   \<and> snd (snd (chat_completion failing_world ask one_key))
       = Inl (TransportError ''timeout on attempt 2'')
   \<and> run_call failing_world (last (fst (snd (chat_completion failing_world ask one_key))))
       = Inl (TransportError ''timeout on attempt 2'')
   \<and> invariant two_keys
   \<and> length (fst (snd (chat_completion primary_broke_world ask two_keys))) = 2
   \<and> run_call primary_broke_world (last (fst (snd (chat_completion primary_broke_world ask two_keys))))
       = Inr ''completion''
   \<and> snd (snd (chat_completion primary_broke_world ask two_keys)) = Inr ''completion''"
proof -
  let ?f = "chat_completion failing_world ask one_key"
  let ?g = "chat_completion primary_broke_world ask two_keys"
  have k: "api_keys one_key = [''sk-or-primary'']" by (simp add: one_key_def manager_of_def)
  have d: "\<forall>n q. isl (dispatch failing_world n (create_client one_key ''sk-or-primary'') q)"
    by (simp add: failing_world_def)
  have rf: "snd (snd ?f) = Inl (TransportError ''timeout on attempt 2'')"
    by (simp add: failing_run)
  have lg: "length (fst (snd ?g)) = 2" by (simp add: fallback_run)
  have cg: "run_call primary_broke_world (last (fst (snd ?g))) = Inr ''completion''"
    by (simp add: fallback_run, simp add: run_call_def primary_broke_world_def)
  have f: "?f = (fst ?f, fst (snd ?f), snd (snd ?f))" by simp
  have g: "?g = (fst ?g, fst (snd ?g), snd (snd ?g))" by simp
  from chat_completion_retries[OF one_key_invariant f] k d rf
  have "length (fst (snd ?f)) = 3"
    and "run_call failing_world (last (fst (snd ?f))) = Inl (TransportError ''timeout on attempt 2'')"
    by blast+
  moreover from chat_completion_retries[OF two_keys_invariant g] lg cg
  have "snd (snd ?g) = Inr ''completion''"
    by (metis last_in_set length_0_conv zero_neq_numeral)
  ultimately show ?thesis
    using one_key_invariant two_keys_invariant k d rf lg cg by simp
qed




section \<open>Lemmas: rounding to a float\<close>

lemmas float_defs = round_half_even_def floor_log2_def nearest_double_def double_value_def
  int_true_div_def double_times_100_def percent_or_zero_def compute_bitlen Let_def


lemma round_half_even_bound:
  assumes "0 < d"
  shows "\<bar>of_int (round_half_even n d) - (of_int n / of_int d :: rat)\<bar> \<le> 1 / 2"
proof -
  let ?q = "n div d" and ?r = "n mod d"
  have r: "0 \<le> ?r" "?r < d" using assms by simp_all
  have dpos: "(0::rat) < of_int d" using assms by simp
  have "n = d * ?q + ?r" by simp
  then have "(of_int n :: rat) = of_int d * of_int ?q + of_int ?r"
    by (metis of_int_add of_int_mult)
  then have eq: "(of_int n / of_int d :: rat) = of_int ?q + of_int ?r / of_int d"
    using dpos by (simp add: field_simps)
  have lo: "(0::rat) \<le> of_int ?r / of_int d" using r(1) dpos by simp
  have hi: "(of_int ?r / of_int d :: rat) < 1" using r(2) dpos by simp
  consider "2 * ?r < d" | "2 * ?r > d" | "2 * ?r = d" by linarith
  then show ?thesis
  proof cases
    case 1
    then have "(2::rat) * of_int ?r < of_int d" by (metis of_int_less_iff of_int_mult of_int_numeral)
    then have "(of_int ?r / of_int d :: rat) < 1 / 2" using dpos by (simp add: field_simps)
    moreover have "round_half_even n d = ?q" using 1 by (simp add: round_half_even_def)
    ultimately show ?thesis using eq lo by simp
  next
    case 2
    then have "(of_int d :: rat) < 2 * of_int ?r" by (metis of_int_less_iff of_int_mult of_int_numeral)
    then have "(of_int ?r / of_int d :: rat) > 1 / 2" using dpos by (simp add: field_simps)
    moreover have "round_half_even n d = ?q + 1" using 2 by (simp add: round_half_even_def)
    ultimately show ?thesis using eq hi by simp
  next
    case 3
    then have "(of_int d :: rat) = 2 * of_int ?r" by (metis of_int_mult of_int_numeral)
    then have h: "(of_int ?r / of_int d :: rat) = 1 / 2" using dpos by (simp add: field_simps)
    have "round_half_even n d = ?q \<or> round_half_even n d = ?q + 1"
      using 3 by (auto simp: round_half_even_def Let_def)
    then show ?thesis using eq h by auto
  qed
qed

lemma bitlen_powi:
  assumes "0 < n"
  shows "(2::rat) powi (bitlen n - 1) \<le> of_int n" and "of_int n < (2::rat) powi (bitlen n)"
proof -
  from bitlen_bounds[OF assms] have b: "2 ^ nat (bitlen n - 1) \<le> n" "n < 2 ^ nat (bitlen n)"
    by simp_all
  have ge: "1 \<le> bitlen n" using assms bitlen_eq_zero_iff[of n] bitlen_nonneg[of n] by linarith
  have "(of_int (2 ^ nat (bitlen n - 1)) :: rat) \<le> of_int n" using b(1) by (simp only: of_int_le_iff)
  then show "(2::rat) powi (bitlen n - 1) \<le> of_int n" using ge by (simp add: power_int_def)
  have "(of_int n :: rat) < of_int (2 ^ nat (bitlen n))" using b(2) by (simp only: of_int_less_iff)
  then show "of_int n < (2::rat) powi (bitlen n)" using ge by (simp add: power_int_def)
qed

lemma floor_log2_bounds:
  assumes "0 < n" and "0 < d"
  shows "(2::rat) powi (floor_log2 n d) \<le> of_int n / of_int d"
    and "of_int n / of_int d < (2::rat) powi (floor_log2 n d + 1)"
proof -
  let ?x = "of_int n / of_int d :: rat"
  let ?j = "bitlen n - bitlen d"
  have dpos: "(0::rat) < of_int d" and npos: "(0::rat) < of_int n" using assms by simp_all
  note bn = bitlen_powi[OF assms(1)] and bd = bitlen_powi[OF assms(2)]
  have up: "?x < 2 powi (?j + 1)"
  proof -
    have "?x < 2 powi (bitlen n) / of_int d" using bn(2) dpos by (simp add: divide_strict_right_mono)
    also have "\<dots> \<le> 2 powi (bitlen n) / 2 powi (bitlen d - 1)"
      using bd(1) by (intro divide_left_mono mult_pos_pos) (simp_all add: assms)
    also have "\<dots> = 2 powi (bitlen n - (bitlen d - 1))" by (simp add: power_int_diff)
    finally show ?thesis by (simp add: algebra_simps)
  qed
  have lo: "2 powi (?j - 1) < ?x"
  proof -
    have "(2::rat) powi (?j - 1) = 2 powi ((bitlen n - 1) - bitlen d)" by (simp add: algebra_simps)
    also have "\<dots> = 2 powi (bitlen n - 1) / 2 powi (bitlen d)" by (simp add: power_int_diff)
    also have "\<dots> \<le> of_int n / 2 powi (bitlen d)" using bn(1) by (simp add: divide_right_mono)
    also have "\<dots> < of_int n / of_int d"
      using bd(2) npos dpos by (intro divide_strict_left_mono) simp_all
    finally show ?thesis .
  qed
  have test: "(if ?j \<ge> 0 then d * 2 ^ nat ?j \<le> n else d \<le> n * 2 ^ nat (- ?j)) \<longleftrightarrow> 2 powi ?j \<le> ?x"
  proof (cases "?j \<ge> 0")
    case True
    have "d * 2 ^ nat ?j \<le> n \<longleftrightarrow> (of_int (d * 2 ^ nat ?j) :: rat) \<le> of_int n"
      by (simp only: of_int_le_iff)
    also have "\<dots> \<longleftrightarrow> of_int d * (2::rat) powi ?j \<le> of_int n"
      using True by (simp add: power_int_def)
    also have "\<dots> \<longleftrightarrow> 2 powi ?j \<le> ?x" using dpos by (simp add: field_simps)
    finally show ?thesis using True by simp
  next
    case False
    have pj: "(2::rat) powi ?j = 1 / 2 ^ nat (- ?j)"
      using False by (simp add: power_int_def power_one_over inverse_eq_divide)
    have "d \<le> n * 2 ^ nat (- ?j) \<longleftrightarrow> (of_int d :: rat) \<le> of_int n * 2 ^ nat (- ?j)"
      using of_int_le_iff[of d "n * 2 ^ nat (- ?j)", where ?'a = rat] by simp
    also have "\<dots> \<longleftrightarrow> 1 / 2 ^ nat (- ?j) \<le> ?x" using dpos by (simp add: field_simps)
    finally show ?thesis using False pj by simp
  qed
  show "(2::rat) powi (floor_log2 n d) \<le> ?x"
    using test lo by (auto simp: floor_log2_def Let_def)
  show "?x < (2::rat) powi (floor_log2 n d + 1)"
    using test up by (auto simp: floor_log2_def Let_def)
qed


lemma scaled_log2_bounds:
  assumes "0 < n" and "0 < d"
  shows "(2::rat) powi (floor_log2 n d + s) \<le> of_int n / of_int d * 2 powi s"
    and "of_int n / of_int d * 2 powi s < (2::rat) powi (floor_log2 n d + s + 1)"
proof -
  have p: "(0::rat) < 2 powi s" by simp
  have "(2::rat) powi (floor_log2 n d + s) = 2 powi (floor_log2 n d) * 2 powi s"
    by (simp add: power_int_add)
  also have "\<dots> \<le> of_int n / of_int d * 2 powi s"
    using floor_log2_bounds(1)[OF assms] p by (intro mult_right_mono) simp_all
  finally show "(2::rat) powi (floor_log2 n d + s) \<le> of_int n / of_int d * 2 powi s" .
  have "of_int n / of_int d * 2 powi s < (2::rat) powi (floor_log2 n d + 1) * 2 powi s"
    using floor_log2_bounds(2)[OF assms] p by (intro mult_strict_right_mono) simp_all
  also have "\<dots> = 2 powi (floor_log2 n d + s + 1)"
    by (simp add: power_int_add algebra_simps)
  finally show "of_int n / of_int d * 2 powi s < (2::rat) powi (floor_log2 n d + s + 1)" .
qed

lemma scaled_log2_upper:
  assumes "0 < n" and "0 < d"
    and u: "of_int n / of_int d * 2 powi s \<le> (2::rat) powi U"
  shows "floor_log2 n d + s \<le> U"
proof (rule ccontr)
  assume "\<not> floor_log2 n d + s \<le> U"
  then have "(2::rat) powi U < 2 powi (floor_log2 n d + s)"
    by (intro power_int_strict_increasing) simp_all
  with scaled_log2_bounds(1)[OF assms(1,2), of s] u show False by linarith
qed

lemma scaled_log2_lower:
  assumes "0 < n" and "0 < d"
    and l: "(2::rat) powi L \<le> of_int n / of_int d * 2 powi s"
  shows "L \<le> floor_log2 n d + s"
proof (rule ccontr)
  assume "\<not> L \<le> floor_log2 n d + s"
  then have "(2::rat) powi (floor_log2 n d + s + 1) \<le> 2 powi L"
    by (intro power_int_increasing) simp_all
  with scaled_log2_bounds(2)[OF assms(1,2), of s] l show False by linarith
qed

lemma nearest_double_error:
  assumes "0 < n" and "0 < d" and "nearest_double n d s = Some (m, e)"
  shows "e = max (floor_log2 n d + s - 52) (- 1074)"
    and "\<bar>double_value (m, e) - of_int n / of_int d * 2 powi s\<bar> \<le> 2 powi e / 2"
proof -
  let ?x = "of_int n / of_int d * 2 powi s :: rat"
  define e0 where "e0 = max (floor_log2 n d + s - 52) (- 1074)"
  define m0 where "m0 = (if s \<ge> e0 then round_half_even (n * 2 ^ nat (s - e0)) d
                         else round_half_even n (d * 2 ^ nat (e0 - s)))"
  from assms(1,3) have me: "m = m0" "e = e0"
    by (auto simp: nearest_double_def Let_def e0_def m0_def split: if_splits)
  show "e = max (floor_log2 n d + s - 52) (- 1074)" using me(2) by (simp add: e0_def)
  have pe: "(0::rat) < 2 powi e0" by simp
  have y: "\<bar>of_int m0 - ?x / 2 powi e0\<bar> \<le> 1 / 2"
  proof (cases "s \<ge> e0")
    case True
    have "(of_int (n * 2 ^ nat (s - e0)) / of_int d :: rat) = of_int n / of_int d * 2 powi (s - e0)"
      using True by (simp add: power_int_def)
    also have "\<dots> = ?x / 2 powi e0" by (simp add: power_int_diff)
    finally have "(of_int (n * 2 ^ nat (s - e0)) / of_int d :: rat) = ?x / 2 powi e0" .
    with round_half_even_bound[OF assms(2), of "n * 2 ^ nat (s - e0)"] True
    show ?thesis by (simp add: m0_def)
  next
    case False
    have dp: "0 < d * 2 ^ nat (e0 - s)" using assms(2) by simp
    have "(of_int n / of_int (d * 2 ^ nat (e0 - s)) :: rat) = of_int n / of_int d / 2 powi (e0 - s)"
      using False by (simp add: power_int_def)
    also have "\<dots> = ?x / 2 powi e0" by (simp add: power_int_diff field_simps)
    finally have "(of_int n / of_int (d * 2 ^ nat (e0 - s)) :: rat) = ?x / 2 powi e0" .
    with round_half_even_bound[OF dp, of n] False
    show ?thesis by (simp add: m0_def)
  qed
  have "double_value (m, e) - ?x = (of_int m0 - ?x / 2 powi e0) * 2 powi e0"
    using pe by (simp add: double_value_def me field_simps)
  then have "\<bar>double_value (m, e) - ?x\<bar> = \<bar>of_int m0 - ?x / 2 powi e0\<bar> * 2 powi e0"
    using pe by (simp add: abs_mult)
  also have "\<dots> \<le> 1 / 2 * 2 powi e0"
    using y pe by (intro mult_right_mono) simp_all
  finally show "\<bar>double_value (m, e) - ?x\<bar> \<le> 2 powi e / 2" by (simp add: me)
qed

lemma nearest_double_normal:
  assumes "0 < n" and "0 < d"
    and lo: "(2::rat) powi (- 1022) \<le> of_int n / of_int d * 2 powi s"
    and hi: "of_int n / of_int d * 2 powi s \<le> (2::rat) powi 1020"
  shows "\<exists>m e. nearest_double n d s = Some (m, e)
           \<and> \<bar>double_value (m, e) - of_int n / of_int d * 2 powi s\<bar>
               \<le> of_int n / of_int d * 2 powi s / 2 ^ 53
           \<and> 0 < m"
proof -
  let ?x = "of_int n / of_int d * 2 powi s :: rat"
  let ?k = "floor_log2 n d + s"
  have k: "- 1022 \<le> ?k" "?k \<le> 1020"
    using scaled_log2_lower[OF assms(1,2) lo] scaled_log2_upper[OF assms(1,2) hi] by simp_all
  then have e: "max (?k - 52) (- 1074) = ?k - 52" by simp
  have "nearest_double n d s \<noteq> None"
    using assms(1) k by (auto simp: nearest_double_def Let_def)
  then obtain m e' where some: "nearest_double n d s = Some (m, e')" by auto
  from nearest_double_error[OF assms(1,2) some] e
  have e': "e' = ?k - 52" and err: "\<bar>double_value (m, e') - ?x\<bar> \<le> 2 powi e' / 2" by simp_all
  have "(2::rat) powi e' / 2 = 2 powi ?k / 2 ^ 53"
    unfolding e' by (simp add: power_int_diff)
  also have "\<dots> \<le> ?x / 2 ^ 53"
    using scaled_log2_bounds(1)[OF assms(1,2), of s] by (simp add: divide_right_mono)
  finally have rel: "\<bar>double_value (m, e') - ?x\<bar> \<le> ?x / 2 ^ 53" using err by linarith
  have xpos: "0 < ?x" using assms(1,2) by simp
  have "y / 2 ^ 53 < y" if "0 < y" for y :: rat
    using that by (simp add: field_simps)
  from this[OF xpos] have "?x / 2 ^ 53 < ?x" .
  with rel have "0 < double_value (m, e')" by linarith
  then have "0 < (of_int m :: rat) * 2 powi e'" by (simp add: double_value_def)
  moreover have "(0::rat) < 2 powi e'" by simp
  ultimately have "(0::rat) < of_int m" by (rule zero_less_mult_pos2)
  then have "0 < m" by simp
  with some rel show ?thesis by blast
qed


lemma tiny_le: "(2::rat) powi (- 1022) \<le> 1 / 2 ^ 64"
proof -
  have "(2::rat) powi (- 1022) \<le> 2 powi (- 64)" by (intro power_int_increasing) simp_all
  also have "\<dots> = 1 / 2 ^ 64" by (simp add: power_int_minus field_simps)
  finally show ?thesis .
qed

lemma huge_ge: "(2::rat) ^ 71 \<le> 2 powi 1020"
proof -
  have "(2::rat) ^ 71 = 2 powi 71" by simp
  also have "\<dots> \<le> 2 powi 1020" by (intro power_int_increasing) simp_all
  finally show ?thesis .
qed

lemma percent_accuracy:
  assumes "0 \<le> terr" and "terr < 2 ^ 63" and "0 < treq" and "treq < 2 ^ 63"
  shows "\<exists>q v. int_true_div terr treq = Inr q \<and> double_times_100 q = Finite v
           \<and> \<bar>v - of_int terr / of_int treq * 100\<bar> \<le> of_int terr / of_int treq * 100 / 2 ^ 51"
proof (cases "terr = 0")
  case True
  have "int_true_div 0 treq = Inr (0, 0)"
    using assms(3) by (simp add: int_true_div_def nearest_double_def)
  moreover have "double_times_100 (0, 0) = Finite 0"
    by (simp add: double_times_100_def nearest_double_def double_value_def)
  ultimately show ?thesis using True by simp
next
  case False
  then have pos: "0 < terr" using assms(1) by simp
  define t :: rat where "t = of_int terr / of_int treq"
  have rq: "(0::rat) < of_int treq" "(of_int treq :: rat) < 2 ^ 63"
    using assms(3,4) of_int_less_iff[of treq "2 ^ 63", where ?'a = rat] by simp_all
  have re: "(1::rat) \<le> of_int terr" "(of_int terr :: rat) < 2 ^ 63"
    using pos assms(2) of_int_less_iff[of terr "2 ^ 63", where ?'a = rat]
      of_int_le_iff[of 1 terr, where ?'a = rat] by simp_all
  have t_lo: "1 / 2 ^ 63 \<le> t"
  proof -
    have "(1::rat) / 2 ^ 63 \<le> 1 / of_int treq"
      using rq by (intro divide_left_mono) simp_all
    also have "\<dots> \<le> of_int terr / of_int treq"
      using re(1) rq(1) by (intro divide_right_mono) simp_all
    finally show ?thesis by (simp add: t_def)
  qed
  have t_hi: "t \<le> 2 ^ 63"
  proof -
    have "1 \<le> treq" using assms(3) by simp
    then have "(1::rat) \<le> of_int treq" using of_int_le_iff[of 1 treq, where ?'a = rat] by simp
    then have "of_int terr / of_int treq \<le> (of_int terr :: rat) / 1"
      using re(1) by (intro divide_left_mono) simp_all
    then show ?thesis using re(2) by (simp add: t_def)
  qed
  have tpos: "0 < t" using t_lo by (rule less_le_trans[rotated]) simp
  define T where "T = (2::rat) powi (- 1022)"
  define H where "H = (2::rat) powi 1020"
  have T: "T \<le> 1 / 2 ^ 64" unfolding T_def by (rule tiny_le)
  have H: "2 ^ 71 \<le> H" unfolding H_def by (rule huge_ge)
  have c1: "(1::rat) / 2 ^ 64 \<le> 1 / 2 ^ 63" by simp
  have c2: "(1::rat) / 2 ^ 64 \<le> 100 * (1 / 2 ^ 63 / 2)" by simp
  have c3: "(100::rat) * (2 * 2 ^ 63) \<le> 2 ^ 71" by simp
  have c4: "(2::rat) ^ 63 \<le> 2 ^ 71" by simp
  have "T \<le> t" using T t_lo c1 by linarith
  then have lo1: "(2::rat) powi (- 1022) \<le> of_int terr / of_int treq * 2 powi 0"
    unfolding T_def t_def by (simp only: power_int_0_right mult_1_right)
  have "t \<le> H" using H t_hi c4 by linarith
  then have hi1: "of_int terr / of_int treq * 2 powi 0 \<le> (2::rat) powi 1020"
    unfolding H_def t_def by (simp only: power_int_0_right mult_1_right)
  from nearest_double_normal[OF pos assms(3) lo1 hi1] obtain m1 e1 where
    n1: "nearest_double terr treq 0 = Some (m1, e1)"
    and a1': "\<bar>double_value (m1, e1) - of_int terr / of_int treq * 2 powi 0\<bar>
               \<le> of_int terr / of_int treq * 2 powi 0 / 2 ^ 53" and m1: "0 < m1"
    by blast
  have a1: "\<bar>double_value (m1, e1) - t\<bar> \<le> t / 2 ^ 53"
    using a1' unfolding t_def by (simp only: power_int_0_right mult_1_right)
  define q where "q = double_value (m1, e1)"
  have d1: "int_true_div terr treq = Inr (m1, e1)"
    using n1 pos assms(3) by (simp add: int_true_div_def)
  define u where "u = t / 2 ^ 53"
  have u: "0 \<le> u" "u \<le> t / 2" using tpos by (simp_all add: u_def field_simps)
  have a1u: "\<bar>q - t\<bar> \<le> u" using a1 by (simp add: q_def u_def)
  have q_lo: "t / 2 \<le> q" and q_hi: "q \<le> 2 * t"
    using a1u u tpos by linarith+
  have x2: "of_int (m1 * 100) / of_int 1 * 2 powi e1 = 100 * q"
    by (simp add: q_def double_value_def)
  have "100 * (1 / 2 ^ 63 / 2) \<le> 100 * q" using t_lo q_lo by simp
  then have "T \<le> 100 * q" using T c2 by linarith
  then have lo2: "(2::rat) powi (- 1022) \<le> of_int (m1 * 100) / of_int 1 * 2 powi e1"
    unfolding T_def by (simp only: x2)
  have "100 * q \<le> 100 * (2 * 2 ^ 63)" using t_hi q_hi by simp
  then have "100 * q \<le> H" using H c3 by linarith
  then have hi2: "of_int (m1 * 100) / of_int 1 * 2 powi e1 \<le> (2::rat) powi 1020"
    unfolding H_def by (simp only: x2)
  have p100: "0 < m1 * 100" using m1 by simp
  from nearest_double_normal[OF p100 zero_less_one lo2 hi2] obtain m2 e2 where
    n2: "nearest_double (m1 * 100) 1 e1 = Some (m2, e2)"
    and a2': "\<bar>double_value (m2, e2) - of_int (m1 * 100) / of_int 1 * 2 powi e1\<bar>
               \<le> of_int (m1 * 100) / of_int 1 * 2 powi e1 / 2 ^ 53"
    by blast
  have a2: "\<bar>double_value (m2, e2) - 100 * q\<bar> \<le> 100 * q / 2 ^ 53"
    using a2' by (simp only: x2)
  have d2: "double_times_100 (m1, e1) = Finite (double_value (m2, e2))"
    using n2 m1 by (simp add: double_times_100_def)
  define w where "w = 100 * q / 2 ^ 53"
  have "w \<le> 100 * (2 * t) / 2 ^ 53"
    unfolding w_def using q_hi by (intro divide_right_mono mult_left_mono) simp_all
  also have "\<dots> = 200 * u" by (simp add: u_def)
  finally have w: "w \<le> 200 * u" .
  have a2w: "\<bar>double_value (m2, e2) - 100 * q\<bar> \<le> w" using a2 by (simp add: w_def)
  have "\<bar>double_value (m2, e2) - t * 100\<bar> \<le> 400 * u"
    using a1u a2w w u by linarith
  also have "400 * u = t * 100 / 2 ^ 51" by (simp add: u_def)
  finally have "\<bar>double_value (m2, e2) - t * 100\<bar> \<le> t * 100 / 2 ^ 51" .
  with d1 d2 show ?thesis unfolding t_def by blast
qed

section \<open>The status report\<close>

text \<open>
  Claim C8. The claim says that \<^verbatim>\<open>available_keys\<close> counts the keys that are usable at
  the time of the snapshot, a cooldown entry whose expiry has passed not counting against a
  key. \<^verbatim>\<open>get_api_status\<close> reads no clock: it takes a key for unavailable as long as the
  dictionary has an entry for it, and an expired entry stays until the next selection
  deletes it. After three failed dispatches on the only key (cooldown until second 36.9), at
  second 40 the key is usable and the selection returns it from the scan, and the report
  still counts no available key and says \<^verbatim>\<open>degraded\<close>.
\<close>

theorem status_ignores_cooldown_expiry:
  "invariant after_failures
   \<and> map_of (key_cooldowns after_failures) ''sk-or-primary'' = Some 36900000
   \<and> is_usable after_failures ''sk-or-primary'' 40000000
   \<and> length (filter (\<lambda>k. is_usable after_failures k 40000000) (api_keys after_failures)) = 1
   \<and> snd (get_next_available_key after_failures (steady 40000000)) = Inr ''sk-or-primary''
   \<and> map_sum id (available_keys \<circ> status_summary) (get_api_status after_failures) = Inr 0
   \<and> map_sum id (health_status \<circ> status_summary) (get_api_status after_failures)
       = Inr ''degraded''"
  by (simp add: after_failures_eq one_key_def manager_of_def invariant_def is_usable_def
      get_next_available_key_def scan_keys.simps steady_def get_api_status_def
      key_status_entry_def float_defs)

lemma keys_status_from_known:
  "\<forall>k \<in> set ks. map_of (key_usage_stats s) k \<noteq> None \<Longrightarrow> \<exists>r. keys_status_from s i ks = Inr r"
proof (induction ks arbitrary: i)
  case Nil
  then show ?case by simp
next
  case (Cons k ks)
  then obtain st where "map_of (key_usage_stats s) k = Some st" by auto
  moreover from Cons obtain r where "keys_status_from s (i + 1) ks = Inr r" by fastforce
  ultimately show ?case by simp
qed

text \<open>
  Claim C9, as the code has it. The claim says that the error rate is the ratio of the total
  errors to the total requests. The code multiplies the ratio by 100, in floating point: with
  two requests and one error the rate is 50, not one half (\<open>error_rate_counterexample\<close>).
  What holds: in every state of the manager in which the total of requests is positive, and
  both totals are below \<open>2 ^ 63\<close>, \<^verbatim>\<open>get_api_status\<close> returns, the two totals are the sums
  over the entries of the statistics dictionary, and the error rate is the float that
  \<^verbatim>\<open>total_errors / total_requests * 100\<close> computes: the float nearest to 100 times the float
  nearest to the ratio. It is finite and within a relative error of \<open>2 ^ - 51\<close> of the
  percentage, total errors over total requests times 100; it is not always that percentage
  (one error in three requests gives 33.33333333333333, which is below \<open>100 / 3\<close>).
\<close>

theorem error_rate_is_percentage:
  assumes "invariant s"
    and "treq = sum_list (map (\<lambda>(k, stats). requests stats) (key_usage_stats s))"
    and "terr = sum_list (map (\<lambda>(k, stats). errors stats) (key_usage_stats s))"
    and "0 < treq" and "treq < 2 ^ 63" and "0 \<le> terr" and "terr < 2 ^ 63"
  shows "\<exists>st q v. get_api_status s = Inr st
           \<and> total_requests (status_summary st) = treq
           \<and> total_errors (status_summary st) = terr
           \<and> int_true_div terr treq = Inr q
           \<and> error_rate (status_summary st) = double_times_100 q
           \<and> double_times_100 q = Finite v
           \<and> \<bar>v - of_int terr / of_int treq * 100\<bar> \<le> of_int terr / of_int treq * 100 / 2 ^ 51"
proof -
  from keys_status_from_known[OF invariant_known[OF assms(1)], of 0] obtain ks where
    ks: "keys_status_from s 0 (api_keys s) = Inr ks" by blast
  from percent_accuracy[OF assms(6,7,4,5)] obtain q v where
    q: "int_true_div terr treq = Inr q" and v: "double_times_100 q = Finite v"
    and acc: "\<bar>v - of_int terr / of_int treq * 100\<bar> \<le> of_int terr / of_int treq * 100 / 2 ^ 51"
    by blast
  have "percent_or_zero terr treq = Inr (double_times_100 q)"
    using q assms(4) by (simp add: percent_or_zero_def)
  then obtain st where "get_api_status s = Inr st"
    "total_requests (status_summary st) = treq" "total_errors (status_summary st) = terr"
    "error_rate (status_summary st) = double_times_100 q"
    using ks assms(2,3) by (simp add: get_api_status_def Let_def)
  with q v acc show ?thesis by blast
qed

lemma after_fallback_invariant: "invariant after_fallback"
  by (simp add: after_fallback_eq two_keys_def manager_of_def invariant_def)

lemma after_two_calls_eq:
  "after_two_calls =
     one_key\<lparr>key_usage_stats :=
         [(''sk-or-primary'', \<lparr>requests = 3, errors = 1, last_used = Some 60001000,
                                credits_exhausted = False, rate_limited = False\<rparr>)]\<rparr>"
  by (simp add: after_two_calls_def run_defs)

lemma after_two_calls_invariant: "invariant after_two_calls"
  by (simp add: after_two_calls_eq one_key_def manager_of_def invariant_def)

lemma after_two_calls_status:
  "map_sum id (error_rate \<circ> status_summary) (get_api_status after_two_calls)
     = Inr (Finite (4691249611844266 / 2 ^ 47))"
  by (simp add: after_two_calls_eq one_key_def manager_of_def get_api_status_def
      key_status_entry_def float_defs)

theorem error_rate_is_percentage_witness:
  "invariant after_two_calls
   \<and> sum_list (map (\<lambda>(k, stats). requests stats) (key_usage_stats after_two_calls)) = 3
   \<and> sum_list (map (\<lambda>(k, stats). errors stats) (key_usage_stats after_two_calls)) = 1
   \<and> (0::int) < 3 \<and> (3::int) < 2 ^ 63 \<and> (0::int) \<le> 1 \<and> (1::int) < 2 ^ 63
   \<and> map_sum id (error_rate \<circ> status_summary) (get_api_status after_two_calls)
       = Inr (Finite (4691249611844266 / 2 ^ 47))
   \<and> \<bar>4691249611844266 / 2 ^ 47 - of_int 1 / of_int 3 * (100::rat)\<bar>
       \<le> of_int 1 / of_int 3 * 100 / 2 ^ 51
   \<and> (4691249611844266 / 2 ^ 47 :: rat) < of_int 1 / of_int 3 * 100"
proof -
  have r: "sum_list (map (\<lambda>(k, stats). requests stats) (key_usage_stats after_two_calls)) = 3"
    and e: "sum_list (map (\<lambda>(k, stats). errors stats) (key_usage_stats after_two_calls)) = 1"
    by (simp_all add: after_two_calls_eq one_key_def manager_of_def)
  from error_rate_is_percentage[OF after_two_calls_invariant r[symmetric] e[symmetric]]
  obtain st q v where st: "get_api_status after_two_calls = Inr st"
    and rate: "error_rate (status_summary st) = double_times_100 q"
    and v: "double_times_100 q = Finite v"
    and acc: "\<bar>v - of_int 1 / of_int 3 * 100\<bar> \<le> of_int 1 / of_int 3 * 100 / 2 ^ 51"
    by auto
  from after_two_calls_status st rate v have "v = 4691249611844266 / 2 ^ 47" by simp
  with acc have "\<bar>4691249611844266 / 2 ^ 47 - of_int 1 / of_int 3 * (100::rat)\<bar>
                   \<le> of_int 1 / of_int 3 * 100 / 2 ^ 51" by simp
  moreover have "(4691249611844266 / 2 ^ 47 :: rat) < of_int 1 / of_int 3 * 100" by simp
  ultimately show ?thesis
    using after_two_calls_invariant r e after_two_calls_status by simp
qed

lemma after_fallback_status:
  "map_sum id (total_requests \<circ> status_summary) (get_api_status after_fallback) = Inr 2
   \<and> map_sum id (total_errors \<circ> status_summary) (get_api_status after_fallback) = Inr 1
   \<and> map_sum id (error_rate \<circ> status_summary) (get_api_status after_fallback)
       = Inr (Finite 50)"
  by (simp add: after_fallback_eq two_keys_def manager_of_def get_api_status_def
      key_status_entry_def float_defs)

theorem error_rate_counterexample:
  "invariant after_fallback
   \<and> map_sum id (total_requests \<circ> status_summary) (get_api_status after_fallback) = Inr 2
   \<and> map_sum id (total_errors \<circ> status_summary) (get_api_status after_fallback) = Inr 1
   \<and> map_sum id (error_rate \<circ> status_summary) (get_api_status after_fallback)
       = Inr (Finite 50)
   \<and> (50::rat) \<noteq> of_int 1 / of_int 2"
  using after_fallback_status after_fallback_invariant by simp

section \<open>The invariant is established and kept\<close>

lemma foldl_update_dom:
  "fst ` set (foldl (\<lambda>d k. AList.update k v d) d0 ks) = set ks \<union> fst ` set d0"
  by (induction ks arbitrary: d0) (auto simp: dom_update)

lemma foldl_update_distinct:
  "distinct (map fst d0) \<Longrightarrow> distinct (map fst (foldl (\<lambda>d k. AList.update k v d) d0 ks))"
  by (induction ks arbitrary: d0) (auto simp: distinct_update)

lemma init_manager_invariant:
  assumes "init_manager getenv = Inr s"
  shows "invariant s"
proof -
  from assms obtain keys where k: "load_api_keys getenv = Inr keys"
    and s: "s = \<lparr>base_url = ''https://openrouter.ai/api/v1'',
               api_keys = keys,
               current_key_index = 0,
               key_usage_stats = foldl (\<lambda>d k. AList.update k fresh_stats d) [] keys,
               key_cooldowns = [],
               max_retries = 3,
               retry_delay = 2,
               model_fallback_chain = default_chain\<rparr>"
    by (auto simp: init_manager_def split: sum.splits)
  have "keys \<noteq> []" using k by (auto simp: load_api_keys_def Let_def split: if_splits)
  then show ?thesis
    unfolding s by (simp add: invariant_def foldl_update_dom foldl_update_distinct)
qed

lemma one_key_init: "init_manager one_key_env = Inr one_key"
  by (simp add: init_manager_def load_api_keys_def env_names_def one_key_env_def one_key_def
      manager_of_def)

lemma two_keys_init: "init_manager two_key_env = Inr two_keys"
  by (simp add: init_manager_def load_api_keys_def env_names_def two_key_env_def two_keys_def
      manager_of_def)

lemma get_next_available_key_invariant:
  assumes "invariant s" and "get_next_available_key s clock = (s', r)"
  shows "invariant s'"
  using select_member[OF assms(1), of clock] assms selected_invariant by auto

lemma chat_completion_invariant:
  assumes "invariant s" and "chat_completion w kwargs s = (s', calls, r)"
  shows "invariant s'"
  using chat_loop_char[OF assms(1), of w kwargs "[0 ..< max_retries s]" None None "[]" s' calls r]
    assms(2)
  by (simp add: chat_completion_def)

lemma reset_flags_of_invariant:
  "invariant s \<Longrightarrow> set ks \<subseteq> set (api_keys s) \<Longrightarrow>
   \<exists>s'. reset_flags_of s ks = (s', None) \<and> invariant s'"
proof (induction ks arbitrary: s)
  case Nil
  then show ?case by simp
next
  case (Cons k ks)
  from invariant_known[OF Cons.prems(1)] Cons.prems(2)
  obtain st where st: "map_of (key_usage_stats s) k = Some st" by auto
  let ?s1 = "s\<lparr>key_usage_stats := AList.update k (clear_flags st) (key_usage_stats s)\<rparr>"
  have "invariant ?s1" by (rule stats_update_invariant[OF Cons.prems(1)])
  moreover have "set ks \<subseteq> set (api_keys ?s1)" using Cons.prems(2) by simp
  ultimately obtain s' where "reset_flags_of ?s1 ks = (s', None)" "invariant s'"
    using Cons.IH by blast
  then show ?case using st by simp
qed

lemma reset_key_status_invariant:
  assumes "invariant s" and "reset_key_status s key_index = (s', r)"
  shows "invariant s' \<and> r = None"
proof (cases key_index)
  case None
  from reset_flags_of_invariant[OF assms(1) subset_refl] obtain s1 where
    "reset_flags_of s (api_keys s) = (s1, None)" "invariant s1" by blast
  then show ?thesis
    using assms(2) None by (auto simp: reset_key_status_def invariant_def)
next
  case (Some i)
  show ?thesis
  proof (cases "0 \<le> i \<and> i < int (length (api_keys s))")
    case True
    then have "nat i < length (api_keys s)" by linarith
    then have "api_keys s ! nat i \<in> set (api_keys s)" by (rule nth_mem)
    with invariant_known[OF assms(1)]
    obtain st where "map_of (key_usage_stats s) (api_keys s ! nat i) = Some st" by auto
    then show ?thesis
      using assms Some True
      by (auto simp: reset_key_status_def Let_def invariant_def dom_update distinct_update
          distinct_delete)
  next
    case False
    then show ?thesis using assms Some by (auto simp: reset_key_status_def)
  qed
qed

end
